theory Spec2Isabelle
  imports Main
begin

text \<open>
  A shallow embedding of the smart order router of b-sdk: the entities \<open>Path\<close>,
  \<open>PathWithAmount\<close> and \<open>Swap\<close>, the orchestrator \<open>SmartOrderRouter.getSwaps\<close>, and the
  path graph with its search (\<open>PathGraph.buildGraph\<close> and
  \<open>PathGraph.traverseGraphAndFindBestPaths\<close>). A call that may throw returns a sum:
  \<open>Inl\<close> the error, \<open>Inr\<close> the result. Loops are recursive functions, each with its
  termination proof.
\<close>

section \<open>Entities: tokens, amounts, pools, paths\<close>

text \<open>
  A \<open>Token\<close> value stands for one \<open>Token\<close> object. The source compares tokens with
  \<open>===\<close> (object identity); the field \<open>ref\<close> is the identity of the object, so that two
  objects carrying the same data are different values and HOL equality on \<open>Token\<close> is
  \<open>===\<close>.
\<close>

record Token =
  ref :: nat
  chainId :: nat
  address :: string
  decimals :: nat
  isNative :: bool
  wrapped :: string

record TokenAmount =
  token :: Token
  amount :: int

datatype SwapKind = GivenIn | GivenOut

datatype PoolType =
  Weighted | ComposableStable | MetaStable | AaveLinear | Fx | Gyro2 | Gyro3 | GyroE

text \<open>
  What the source throws: \<open>new Error(message)\<close>, the \<open>TypeError\<close> of the runtime (a
  property read on \<open>undefined\<close>, \<open>reduce\<close> of an empty array), a failure of a pool's own
  quoting function, and the failure of \<open>TokenAmount.add\<close> on different tokens.
\<close>

datatype error = Error string | TypeError | PoolError string | TokenMismatch

text \<open>
  \<open>BasePool\<close> is an interface outside the files at hand; the fields are the members the
  source reads or calls: \<open>pool.id\<close>, \<open>pool.address\<close>, \<open>pool.poolType\<close>,
  \<open>pool.tokens[i].token\<close>, \<open>pool.getNormalizedLiquidity(tokenIn, tokenOut)\<close> and
  \<open>pool.swapGivenIn(tokenIn, tokenOut, amount)\<close>. An argument of a quoting call may be
  \<open>undefined\<close> (\<open>None\<close>); a rejected promise is \<open>Inl\<close>. The liquidity of a pair is
  taken to be a number that the pool always returns.
  Modelled from the spec: \<open>swapGivenOut\<close>, the \<open>quoteGivenOut(tokenIn, tokenOut, amountOut)
  -> amountIn\<close> of the pool capability contract, which no source file calls.
\<close>

record Pool =
  pool_id :: string
  pool_address :: string
  poolType :: PoolType
  pool_tokens :: "TokenAmount list"
  getNormalizedLiquidity :: "Token \<Rightarrow> Token \<Rightarrow> int"
  swapGivenIn :: "Token option \<Rightarrow> Token option \<Rightarrow> TokenAmount option \<Rightarrow> error + TokenAmount"
  swapGivenOut :: "Token option \<Rightarrow> Token option \<Rightarrow> TokenAmount option \<Rightarrow> error + TokenAmount"

subsection \<open>Arrays as the runtime has them\<close>

text \<open>
  An array that may have holes is a list of options: \<open>None\<close> is \<open>undefined\<close>. A read out
  of range is \<open>undefined\<close>; a write past the end extends the array.
\<close>

definition js_get :: "'a list \<Rightarrow> nat \<Rightarrow> 'a option" where
  "js_get xs i = (if i < length xs then Some (xs ! i) else None)"

definition js_read :: "'a option list \<Rightarrow> nat \<Rightarrow> 'a option" where
  "js_read xs i = (if i < length xs then xs ! i else None)"

definition js_write :: "'a option list \<Rightarrow> nat \<Rightarrow> 'a \<Rightarrow> 'a option list" where
  "js_write xs i x =
     (if i < length xs then xs[i := Some x]
      else xs @ replicate (i - length xs) None @ [Some x])"

text \<open>\<open>Array.prototype.indexOf\<close> and \<open>findIndex\<close>: the first index, or \<open>-1\<close>.\<close>

fun indexOf :: "'a list \<Rightarrow> 'a \<Rightarrow> int" where
  "indexOf [] x = -1"
| "indexOf (y # ys) x = (if y = x then 0 else (let r = indexOf ys x in if r < 0 then r else r + 1))"

text \<open>\<open>[...new Set(xs)]\<close>: the distinct elements in order of first occurrence.\<close>

fun uniq :: "'a list \<Rightarrow> 'a list \<Rightarrow> 'a list" where
  "uniq seen [] = []"
| "uniq seen (x # xs) = (if x \<in> set seen then uniq seen xs else x # uniq (seen @ [x]) xs)"

subsection \<open>Path and PathWithAmount (entities/path.ts)\<close>

record Path =
  pools :: "Pool list"
  tokens :: "Token list"

record PathWithAmount = Path +
  swapAmount :: TokenAmount
  swapKind :: SwapKind

text \<open>The constructor: \<open>tokens[0] === swapAmount.token\<close> decides the kind.\<close>

definition new_PathWithAmount :: "Token list \<Rightarrow> Pool list \<Rightarrow> TokenAmount \<Rightarrow> PathWithAmount" where
  "new_PathWithAmount ts ps a =
     \<lparr> pools = ps, tokens = ts, swapAmount = a,
       swapKind = (if js_get ts 0 = Some (token a) then GivenIn else GivenOut) \<rparr>"

text \<open>
  \<open>outputAmount()\<close>. The loop \<open>for (i = 0; i < pools.length; i++)\<close> over the array
  \<open>amounts\<close>, which starts as \<open>new Array(tokens.length)\<close> with \<open>amounts[0] = swapAmount\<close>.
\<close>

function outputAmount_loop ::
  "PathWithAmount \<Rightarrow> nat \<Rightarrow> TokenAmount option list \<Rightarrow> error + TokenAmount option list" where
  "outputAmount_loop p i amounts =
     (if i < length (pools p) then
        (case swapGivenIn (pools p ! i) (js_get (tokens p) i) (js_get (tokens p) (i + 1))
                (js_read amounts i) of
           Inl e \<Rightarrow> Inl e
         | Inr out \<Rightarrow> outputAmount_loop p (i + 1) (js_write amounts (i + 1) out))
      else Inr amounts)"
  by pat_completeness auto
termination
  by (relation "measure (\<lambda>(p, i, amounts). length (pools p) - i)") auto

definition PathWithAmount_outputAmount :: "PathWithAmount \<Rightarrow> error + TokenAmount option" where
  "PathWithAmount_outputAmount p =
     (if swapKind p = GivenIn then
        (case outputAmount_loop p 0
                (js_write (replicate (length (tokens p)) None) 0 (swapAmount p)) of
           Inl e \<Rightarrow> Inl e
         | Inr amounts \<Rightarrow> Inr (js_read amounts (length amounts - 1)))
      else Inr (Some (swapAmount p)))"

subsection \<open>TokenAmount.add\<close>

text \<open>
  Modelled from the spec: \<open>TokenAmount.add\<close> (entities/tokenAmount.ts is not among the
  files at hand). "Arithmetic (add, compare) is only valid between amounts of the same
  token; mismatched-token arithmetic must fail with a TokenMismatch error", where token
  "equality is address+chain identity".
\<close>

definition TokenAmount_add :: "TokenAmount \<Rightarrow> TokenAmount \<Rightarrow> error + TokenAmount" where
  "TokenAmount_add a b =
     (if address (token a) = address (token b) \<and> chainId (token a) = chainId (token b)
      then Inr \<lparr> token = token a, amount = amount a + amount b \<rparr>
      else Inl TokenMismatch)"

text \<open>\<open>amounts.reduce((a, b) => a.add(b))\<close>: no initial value, so an empty array throws.\<close>

fun reduce_add_from :: "TokenAmount \<Rightarrow> TokenAmount list \<Rightarrow> error + TokenAmount" where
  "reduce_add_from acc [] = Inr acc"
| "reduce_add_from acc (b # bs) =
     (case TokenAmount_add acc b of Inl e \<Rightarrow> Inl e | Inr acc' \<Rightarrow> reduce_add_from acc' bs)"

definition reduce_add :: "TokenAmount list \<Rightarrow> error + TokenAmount" where
  "reduce_add amounts = (case amounts of [] \<Rightarrow> Inl TypeError | a # bs \<Rightarrow> reduce_add_from a bs)"

subsection \<open>Swap (entities/swap.ts)\<close>

text \<open>The elements of \<open>Swap.paths\<close>: \<open>{ path, inputAmount, outputAmount }\<close>.\<close>

record SwapPath =
  path :: PathWithAmount
  inputAmount :: TokenAmount
  outputAmount :: TokenAmount

text \<open>
  \<open>BatchSwapStep\<close>. The source stores \<open>amount\<close> as the decimal string of a bigint
  (\<open>amount.toString()\<close> or \<open>'0'\<close>); the model keeps the number that string denotes.
\<close>

record BatchSwapStep =
  step_poolId :: string
  assetInIndex :: int
  assetOutIndex :: int
  step_amount :: int
  userData :: string

record Swap =
  swap_paths :: "SwapPath list"
  swap_swapKind :: SwapKind
  isNativeSwap :: bool
  isBatchSwap :: bool
  assets :: "string list"
  swaps :: "BatchSwapStep list"

text \<open>The constants \<open>DEFAULT_USERDATA\<close> and \<open>ZERO_ADDRESS\<close> of \<open>../utils\<close>.\<close>

definition DEFAULT_USERDATA :: string where
  "DEFAULT_USERDATA = ''0x''"

definition ZERO_ADDRESS :: string where
  "ZERO_ADDRESS = ''0x0000000000000000000000000000000000000000''"

text \<open>
  The steps of one path. \<open>pools.map((pool, i) => ...)\<close> reads \<open>tokens[i].address\<close> and
  \<open>tokens[i + 1].address\<close>; on a token list that is too short the read of \<open>.address\<close> on
  \<open>undefined\<close> throws. \<open>first\<close> is the amount of the step at \<open>i = 0\<close>; for GivenOut the
  caller passes the reversed pools and tokens, and the in and out indexes swap.
\<close>

fun steps_of_path ::
  "string list \<Rightarrow> SwapKind \<Rightarrow> Token list \<Rightarrow> int \<Rightarrow> nat \<Rightarrow> Pool list \<Rightarrow> error + BatchSwapStep list" where
  "steps_of_path as k ts first i [] = Inr []"
| "steps_of_path as k ts first i (pool # rest) =
     (case (js_get ts i, js_get ts (i + 1)) of
        (Some a, Some b) \<Rightarrow>
          (case steps_of_path as k ts first (i + 1) rest of
             Inl e \<Rightarrow> Inl e
           | Inr later \<Rightarrow>
               Inr (\<lparr> step_poolId = pool_id pool,
                      assetInIndex = indexOf as (address (if k = GivenIn then a else b)),
                      assetOutIndex = indexOf as (address (if k = GivenIn then b else a)),
                      step_amount = (if i = 0 then first else 0),
                      userData = DEFAULT_USERDATA \<rparr> # later))
      | _ \<Rightarrow> Inl TypeError)"

fun steps_of_paths :: "string list \<Rightarrow> SwapKind \<Rightarrow> SwapPath list \<Rightarrow> error + BatchSwapStep list" where
  "steps_of_paths as k [] = Inr []"
| "steps_of_paths as k (p # ps) =
     (case (if k = GivenIn
            then steps_of_path as k (tokens (path p)) (amount (inputAmount p)) 0 (pools (path p))
            else steps_of_path as k (rev (tokens (path p))) (amount (outputAmount p)) 0
                   (rev (pools (path p)))) of
        Inl e \<Rightarrow> Inl e
      | Inr here \<Rightarrow>
          (case steps_of_paths as k ps of Inl e \<Rightarrow> Inl e | Inr later \<Rightarrow> Inr (here @ later)))"

text \<open>
  \<open>this.assets[idx] = ZERO_ADDRESS\<close> with \<open>idx = findIndex(a => a === wrapped)\<close>: when
  nothing is found the index is \<open>-1\<close> and the elements of the array stay as they are.
\<close>

definition replace_wrapped :: "string list \<Rightarrow> string \<Rightarrow> string list" where
  "replace_wrapped as wr =
     (let idx = indexOf as wr in if idx < 0 then as else as[nat idx := ZERO_ADDRESS])"

text \<open>The (protected) constructor.\<close>

definition new_Swap :: "SwapPath list \<Rightarrow> SwapKind \<Rightarrow> TokenAmount \<Rightarrow> error + Swap" where
  "new_Swap ps k amt =
     (case ps of
        [] \<Rightarrow> Inl (Error ''Invalid swap: must contain at least 1 path.'')
      | p0 # _ \<Rightarrow>
          (let native = isNative (token amt);
               batch = (length ps > 1 \<or> length (pools (path p0)) > 2);
               as = uniq [] (map address (concat (map (\<lambda>p. tokens (path p)) ps)))
           in case steps_of_paths as k ps of
                Inl e \<Rightarrow> Inl e
              | Inr sw \<Rightarrow>
                  Inr \<lparr> swap_paths = ps, swap_swapKind = k, isNativeSwap = native,
                        isBatchSwap = batch,
                        assets = (if native then replace_wrapped as (wrapped (token amt)) else as),
                        swaps = sw \<rparr>))"

text \<open>
  \<open>Swap.fromPaths\<close> reads \<open>path.inputAmount\<close> and \<open>path.outputAmount\<close> of each
  \<open>PathWithAmount\<close>; the class at hand declares neither as a property, so the two reads
  are parameters.
\<close>

definition fromPaths ::
  "(PathWithAmount \<Rightarrow> TokenAmount) \<Rightarrow> (PathWithAmount \<Rightarrow> TokenAmount) \<Rightarrow>
   PathWithAmount list \<Rightarrow> SwapKind \<Rightarrow> TokenAmount \<Rightarrow> error + Swap" where
  "fromPaths inputAmountOf outputAmountOf fromPaths_arg k amt =
     new_Swap (map (\<lambda>p. \<lparr> path = p, inputAmount = inputAmountOf p,
                            outputAmount = outputAmountOf p \<rparr>) fromPaths_arg) k amt"


definition Swap_outputAmount :: "Swap \<Rightarrow> error + TokenAmount" where
  "Swap_outputAmount s =
     (if \<not> list_all (\<lambda>p. token (outputAmount p) = token (outputAmount (hd (swap_paths s))))
              (swap_paths s)
      then Inl (Error ''Output amount can only be calculated if all paths have the same output token'')
      else reduce_add (map outputAmount (swap_paths s)))"

subsection \<open>SmartOrderRouter.getSwaps\<close>

text \<open>
  The router's collaborators are outside the files at hand and are parameters:
  \<open>poolProvider.getPools()\<close>, \<open>router.getCandidatePaths(tokenIn, tokenOut, swapKind, pools)\<close>
  and \<open>router.getBestPaths(candidatePaths, swapKind, swapAmount)\<close>. Each may throw.
\<close>

record SorConfig =
  getPools :: "error + Pool list"
  getCandidatePaths :: "Token \<Rightarrow> Token \<Rightarrow> SwapKind \<Rightarrow> Pool list \<Rightarrow> error + Path list"
  getBestPaths :: "Path list \<Rightarrow> SwapKind \<Rightarrow> TokenAmount \<Rightarrow> error + Swap"

record SwapInfo =
  quote :: TokenAmount
  swap :: Swap
  info_paths :: "SwapPath list"

definition getSwaps ::
  "SorConfig \<Rightarrow> Token \<Rightarrow> Token \<Rightarrow> SwapKind \<Rightarrow> TokenAmount \<Rightarrow> error + SwapInfo" where
  "getSwaps sor tokenIn tokenOut k amt =
     (case getPools sor of
        Inl e \<Rightarrow> Inl e
      | Inr pools_arg \<Rightarrow>
          (case getCandidatePaths sor tokenIn tokenOut k pools_arg of
             Inl e \<Rightarrow> Inl e
           | Inr candidatePaths \<Rightarrow>
               (case getBestPaths sor candidatePaths k amt of
                  Inl e \<Rightarrow> Inl e
                | Inr bestPaths \<Rightarrow>
                    Inr \<lparr> quote = amt, swap = bestPaths, info_paths = swap_paths bestPaths \<rparr>)))"

section \<open>Pricing as the specification words it\<close>

text \<open>
  The specification prices a path "by sequentially applying each pool's quoting function
  along the path in token order (for GivenIn) or in reverse token order (for GivenOut)".
  \<open>feed_forward\<close> is the first reading: the amount goes through pool 0 from token 0 to
  token 1, its output through pool 1, and so on. \<open>counterpart_GivenOut_spec\<close> is the
  second: the fixed output goes through the last pool's \<open>swapGivenOut\<close> first. Both are
  written from the specification's words, to be compared with \<open>outputAmount()\<close>.
\<close>

fun feed_forward :: "Pool list \<Rightarrow> Token list \<Rightarrow> TokenAmount \<Rightarrow> error + TokenAmount" where
  "feed_forward [] ts a = Inr a"
| "feed_forward (q # qs) ts a =
     (case swapGivenIn q (js_get ts 0) (js_get ts 1) (Some a) of
        Inl e \<Rightarrow> Inl e
      | Inr out \<Rightarrow> feed_forward qs (tl ts) out)"

fun feed_backward :: "Pool list \<Rightarrow> Token list \<Rightarrow> TokenAmount \<Rightarrow> error + TokenAmount" where
  "feed_backward [] ts a = Inr a"
| "feed_backward (q # qs) ts a =
     (case swapGivenOut q (js_get ts 1) (js_get ts 0) (Some a) of
        Inl e \<Rightarrow> Inl e
      | Inr inp \<Rightarrow> feed_backward qs (tl ts) inp)"

definition counterpart_GivenOut_spec :: "PathWithAmount \<Rightarrow> error + TokenAmount" where
  "counterpart_GivenOut_spec p = feed_backward (rev (pools p)) (rev (tokens p)) (swapAmount p)"

section \<open>The path graph (pathGraph.ts)\<close>

record PoolTokenPair =
  pair_id :: string
  pair_pool :: Pool
  pair_tokenIn :: Token
  pair_tokenOut :: Token

record PathGraphEdgeLabel =
  poolId :: string
  poolAddress :: string
  poolPair :: PoolTokenPair
  normalizedLiquidity :: int
  isPhantomBptHop :: bool

text \<open>A segment of a path: \<open>{ tokenIn, tokenOut, ...edgeLabel }\<close>, the tokens by address.\<close>

record PathGraphEdge = PathGraphEdgeLabel +
  tokenIn :: string
  tokenOut :: string

record PathGraphTraversalConfig =
  maxDepth :: int
  maxNonBoostedPathDepth :: int
  maxNonBoostedHopTokensInBoostedPath :: int
  approxPathsToReturn :: int
  poolIdsToInclude :: "string list option"

subsection \<open>The multigraph of graphlib\<close>

text \<open>
  A directed multigraph of the library graphlib, as the source uses it: the only way in
  is \<open>setEdge({ v, w, name }, label)\<close>, which creates the nodes \<open>v\<close> and \<open>w\<close> and stores
  \<open>label\<close> under the key \<open>(v, w, name)\<close>; on a key that exists it replaces the label and
  keeps the edge's place. The graph is the list of its edges in order of first insertion,
  each with its label; \<open>successors\<close> and \<open>outEdges\<close> enumerate in that order and are
  \<open>undefined\<close> (\<open>None\<close>) on a node the graph does not have; \<open>graph.edge(e)\<close> is the label
  stored with \<open>e\<close>. Nodes are token addresses: strings of the form \<open>0x...\<close>, which are
  neither empty nor integer-like, so that the objects of the library and of the source
  enumerate their keys in order of insertion and \<open>outEdges(v, w)\<close> filters by \<open>w\<close>.
\<close>

record GraphEdge =
  edge_v :: string
  edge_w :: string
  edge_name :: string
  edge_label :: PathGraphEdgeLabel

type_synonym Graph = "GraphEdge list"

definition same_key :: "GraphEdge \<Rightarrow> GraphEdge \<Rightarrow> bool" where
  "same_key e e' \<longleftrightarrow> edge_v e = edge_v e' \<and> edge_w e = edge_w e' \<and> edge_name e = edge_name e'"

fun setEdge :: "Graph \<Rightarrow> GraphEdge \<Rightarrow> Graph" where
  "setEdge [] e = [e]"
| "setEdge (x # xs) e = (if same_key x e then e # xs else x # setEdge xs e)"

definition hasNode :: "Graph \<Rightarrow> string \<Rightarrow> bool" where
  "hasNode g a \<longleftrightarrow> list_ex (\<lambda>e. edge_v e = a \<or> edge_w e = a) g"

definition successors :: "Graph \<Rightarrow> string \<Rightarrow> string list option" where
  "successors g a =
     (if hasNode g a then Some (uniq [] (map edge_w (filter (\<lambda>e. edge_v e = a) g))) else None)"

definition outEdges :: "Graph \<Rightarrow> string \<Rightarrow> string \<Rightarrow> GraphEdge list option" where
  "outEdges g a b =
     (if hasNode g a then Some (filter (\<lambda>e. edge_v e = a \<and> edge_w e = b) g) else None)"

text \<open>
  Whether a value that is an object or \<open>undefined\<close> is truthy: \<open>!!x\<close>, and \<open>x\<close> where a
  condition is expected.
\<close>

definition truthy :: "'a option \<Rightarrow> bool" where
  "truthy x = (case x of None \<Rightarrow> False | Some y \<Rightarrow> True)"

text \<open>\<open>x || []\<close> on the result of a graph query.\<close>

definition or_empty :: "'a list option \<Rightarrow> 'a list" where
  "or_empty r = (case r of None \<Rightarrow> [] | Some xs \<Rightarrow> xs)"

subsection \<open>The PathGraph object and buildGraph\<close>

text \<open>
  The fields of the object. \<open>maxPathsPerTokenPair\<close> and the indexes compared with it are
  natural numbers; the options of the traversal are integers.
\<close>

record PathGraph =
  graph :: Graph
  poolAddressMap :: "string \<rightharpoonup> Pool"
  graphIsInitialized :: bool
  maxPathsPerTokenPair :: nat

definition new_PathGraph :: PathGraph where
  "new_PathGraph =
     \<lparr> graph = [], poolAddressMap = Map.empty, graphIsInitialized = False,
       maxPathsPerTokenPair = 2 \<rparr>"

text \<open>\<open>keyBy(pools, 'address')\<close>: a later pool replaces an earlier one of the same address.\<close>

definition keyBy_address :: "Pool list \<Rightarrow> (string \<rightharpoonup> Pool)" where
  "keyBy_address ps = foldl (\<lambda>m p. m(pool_address p \<mapsto> p)) Map.empty ps"

text \<open>
  The pool pair map: an object from the key \<open>`${tokenIn.address}-${tokenOut.address}`\<close> to
  an array of \<open>{ poolPair, normalizedLiquidity }\<close>; its keys enumerate in order of
  insertion.
\<close>

record PoolPairItem =
  item_poolPair :: PoolTokenPair
  item_normalizedLiquidity :: int

type_synonym PoolPairMap = "(string \<times> PoolPairItem list) list"

definition pairMap_init :: "PoolPairMap \<Rightarrow> string \<Rightarrow> PoolPairMap" where
  "pairMap_init m k = (if \<not> truthy (map_of m k) then m @ [(k, [])] else m)"

definition pairMap_push :: "PoolPairMap \<Rightarrow> string \<Rightarrow> PoolPairItem \<Rightarrow> PoolPairMap" where
  "pairMap_push m k x = map (\<lambda>(k', xs). if k' = k then (k', xs @ [x]) else (k', xs)) m"

text \<open>
  The index pairs \<open>i < j\<close> of the two inner loops, as the tokens
  \<open>(pool.tokens[i].token, pool.tokens[j].token)\<close>, and the body of the loops.
\<close>

definition token_pairs :: "Pool \<Rightarrow> (Token \<times> Token) list" where
  "token_pairs pool =
     (let ts = map token (pool_tokens pool)
      in concat (map (\<lambda>i. map (\<lambda>j. (ts ! i, ts ! j)) [i + 1 ..< length ts])
                   [0 ..< length ts - 1]))"

definition pair_key :: "Token \<Rightarrow> Token \<Rightarrow> string" where
  "pair_key a b = address a @ ''-'' @ address b"

definition add_pair :: "Pool \<Rightarrow> PoolPairMap \<Rightarrow> Token \<times> Token \<Rightarrow> PoolPairMap" where
  "add_pair pool m ij =
     (case ij of (ti, tj) \<Rightarrow>
        let id = pair_key ti tj;
            reverseId = pair_key tj ti;
            m1 = pairMap_init m id;
            m2 = pairMap_init m1 reverseId;
            m3 = pairMap_push m2 id
                   \<lparr> item_poolPair =
                       \<lparr> pair_id = id, pair_pool = pool, pair_tokenIn = ti, pair_tokenOut = tj \<rparr>,
                     item_normalizedLiquidity = getNormalizedLiquidity pool ti tj \<rparr>
        in pairMap_push m3 reverseId
             \<lparr> item_poolPair =
                 \<lparr> pair_id = reverseId, pair_pool = pool, pair_tokenIn = tj, pair_tokenOut = ti \<rparr>,
               item_normalizedLiquidity = getNormalizedLiquidity pool tj ti \<rparr>)"

text \<open>
  \<open>orderBy(items, item => Number(item.normalizedLiquidity), 'desc')\<close>: a stable sort,
  largest first. The liquidity is taken as the number it converts to.
\<close>

definition orderBy_desc :: "PoolPairItem list \<Rightarrow> PoolPairItem list" where
  "orderBy_desc items = sort_key (\<lambda>it. - item_normalizedLiquidity it) items"

definition buildSortedPoolPairMap :: "Pool list \<Rightarrow> PoolPairMap" where
  "buildSortedPoolPairMap ps =
     map (\<lambda>(k, items). (k, orderBy_desc items))
       (foldl (\<lambda>m pool. foldl (add_pair pool) m (token_pairs pool)) [] ps)"

definition addGraphEdgeForPoolPair ::
  "(string \<rightharpoonup> Pool) \<Rightarrow> Token \<Rightarrow> Token \<Rightarrow> Pool \<Rightarrow> Graph \<Rightarrow> Graph" where
  "addGraphEdgeForPoolPair m tIn tOut pool g =
     setEdge g
       \<lparr> edge_v = address tIn, edge_w = address tOut,
         edge_name = pool_id pool @ ''-'' @ address tIn @ ''-'' @ address tOut,
         edge_label =
           \<lparr> poolId = pool_id pool, poolAddress = pool_address pool,
             poolPair = \<lparr> pair_id = pair_key tIn tOut, pair_pool = pool,
                          pair_tokenIn = tIn, pair_tokenOut = tOut \<rparr>,
             normalizedLiquidity = getNormalizedLiquidity pool tIn tOut,
             isPhantomBptHop = (truthy (m (address tIn)) \<or> truthy (m (address tOut))) \<rparr> \<rparr>"

text \<open>
  A pool has phantom BPT when its own address is the address of one of its tokens:
  \<open>pool.tokens.map(t => t.token.address).includes(address)\<close>.
\<close>

definition hasPhantomBpt :: "Pool \<Rightarrow> string \<Rightarrow> bool" where
  "hasPhantomBpt pool a \<longleftrightarrow> a \<in> set (map (\<lambda>t. address (token t)) (pool_tokens pool))"

text \<open>
  The loop over the items of one key, \<open>i\<close> counting from 0. The pool is looked up by
  address; on \<open>undefined\<close> the first property read throws.
\<close>

fun addItems :: "(string \<rightharpoonup> Pool) \<Rightarrow> nat \<Rightarrow> nat \<Rightarrow> PoolPairItem list \<Rightarrow> Graph \<Rightarrow> error + Graph" where
  "addItems m maxPaths i [] g = Inr g"
| "addItems m maxPaths i (it # its) g =
     (let pp = item_poolPair it in
      case m (pool_address (pair_pool pp)) of
        None \<Rightarrow> Inl TypeError
      | Some pool \<Rightarrow>
          addItems m maxPaths (i + 1) its
            (if i < maxPaths \<or> hasPhantomBpt pool (pool_address (pair_pool pp))
             then addGraphEdgeForPoolPair m (pair_tokenIn pp) (pair_tokenOut pp) pool g
             else g))"

fun addGroups :: "(string \<rightharpoonup> Pool) \<Rightarrow> nat \<Rightarrow> PoolPairMap \<Rightarrow> Graph \<Rightarrow> error + Graph" where
  "addGroups m maxPaths [] g = Inr g"
| "addGroups m maxPaths ((k, items) # rest) g =
     (case addItems m maxPaths 0 items g of
        Inl e \<Rightarrow> Inl e
      | Inr g' \<Rightarrow> addGroups m maxPaths rest g')"

text \<open>
  \<open>buildGraph({ pools, maxPathsPerTokenPair = 2 })\<close>. The object is updated when the
  method returns; the model gives no state to a call that throws.
\<close>

definition buildGraph :: "PathGraph \<Rightarrow> Pool list \<Rightarrow> nat option \<Rightarrow> error + PathGraph" where
  "buildGraph this ps maxPaths_opt =
     (let maxPaths = (case maxPaths_opt of None \<Rightarrow> 2 | Some n \<Rightarrow> n);
          m = keyBy_address ps
      in case addGroups m maxPaths (buildSortedPoolPairMap ps) [] of
           Inl e \<Rightarrow> Inl e
         | Inr g \<Rightarrow>
             Inr (this\<lparr> graph := g, poolAddressMap := m, graphIsInitialized := True,
                        maxPathsPerTokenPair := maxPaths \<rparr>))"

subsection \<open>Validity of token paths and of paths\<close>

definition isValidTokenPath ::
  "PathGraph \<Rightarrow> PathGraphTraversalConfig \<Rightarrow> string list \<Rightarrow> string \<Rightarrow> string \<Rightarrow> bool" where
  "isValidTokenPath this config tokenPath tIn tOut =
     (let hopTokens = filter (\<lambda>t. t \<noteq> tIn \<and> t \<noteq> tOut) tokenPath;
          numStandardHopTokens = length (filter (\<lambda>t. \<not> truthy (poolAddressMap this t)) hopTokens);
          isBoostedPath = (length (filter (\<lambda>t. truthy (poolAddressMap this t)) tokenPath) > 0)
      in if int (length tokenPath) > maxDepth config then False
         else if isBoostedPath \<and>
                 int numStandardHopTokens > maxNonBoostedHopTokensInBoostedPath config then False
         else if int (length tokenPath) > maxNonBoostedPathDepth config \<and>
                 int numStandardHopTokens > maxNonBoostedHopTokensInBoostedPath config then False
         else True)"

text \<open>\<open>xs.join(sep)\<close>.\<close>

fun join :: "string \<Rightarrow> string list \<Rightarrow> string" where
  "join sep [] = []"
| "join sep [x] = x"
| "join sep (x # y # ys) = x @ sep @ join sep (y # ys)"

definition getIdForPath :: "PathGraphEdge list \<Rightarrow> string" where
  "getIdForPath pth =
     join ''_'' (map (\<lambda>segment. poolId segment @ ''-'' @ tokenIn segment @ ''-'' @ tokenOut segment) pth)"

definition isValidPath ::
  "PathGraph \<Rightarrow> PathGraphEdge list \<Rightarrow> string list \<Rightarrow> string list \<Rightarrow> PathGraphTraversalConfig \<Rightarrow> bool" where
  "isValidPath this pth seenPoolAddrs selectedIds config =
     (if (case poolIdsToInclude config of
            None \<Rightarrow> False
          | Some ids \<Rightarrow> list_ex (\<lambda>e. poolId e \<notin> set ids) pth) then False
      else
        let isBoostedPath =
              (length (filter (\<lambda>e. truthy (poolAddressMap this (tokenIn e)) \<or>
                                     truthy (poolAddressMap this (tokenOut e))) pth) > 0)
        in if \<not> isBoostedPath \<and> int (length pth) + 1 > maxNonBoostedPathDepth config then False
           else if length (uniq [] (map poolId pth)) \<noteq> length pth then False
           else if length (filter (\<lambda>segment. poolAddress segment \<in> set seenPoolAddrs) pth) > 0
             then False
           else if getIdForPath pth \<in> set selectedIds then False
           else True)"

subsection \<open>buildPath\<close>

definition mk_segment :: "string \<Rightarrow> string \<Rightarrow> PathGraphEdgeLabel \<Rightarrow> PathGraphEdge" where
  "mk_segment a b l =
     \<lparr> poolId = poolId l, poolAddress = poolAddress l, poolPair = poolPair l,
       normalizedLiquidity = normalizedLiquidity l, isPhantomBptHop = isPhantomBptHop l,
       tokenIn = a, tokenOut = b \<rparr>"

text \<open>
  The loop \<open>for (i = 0; i < tokenPath.length - 1; i++)\<close> over the hops
  \<open>(tokenPath[i], tokenPath[i + 1])\<close>. \<open>outEdges[tokenPairIndex] || outEdges[0]\<close> is
  \<open>undefined\<close> when there is no edge, and \<open>graph.edge(undefined)\<close> throws.
\<close>

fun buildPath_loop ::
  "Graph \<Rightarrow> nat \<Rightarrow> string list \<Rightarrow> PathGraphEdge list \<Rightarrow> bool \<Rightarrow>
   error + (PathGraphEdge list \<times> bool)" where
  "buildPath_loop g tokenPairIndex (a # b # rest) pth isUnique =
     (let es = or_empty (outEdges g a b) in
      case (case js_get es tokenPairIndex of Some e \<Rightarrow> Some e | None \<Rightarrow> js_get es 0) of
        None \<Rightarrow> Inl TypeError
      | Some e \<Rightarrow>
          buildPath_loop g tokenPairIndex (b # rest) (pth @ [mk_segment a b (edge_label e)])
            (isUnique \<or> length es > tokenPairIndex))"
| "buildPath_loop g tokenPairIndex tokenPath pth isUnique = Inr (pth, isUnique)"

definition buildPath :: "PathGraph \<Rightarrow> string list \<Rightarrow> nat \<Rightarrow> error + PathGraphEdge list option" where
  "buildPath this tokenPath tokenPairIndex =
     (case buildPath_loop (graph this) tokenPairIndex tokenPath [] False of
        Inl e \<Rightarrow> Inl e
      | Inr (pth, isUnique) \<Rightarrow> Inr (if isUnique then Some pth else None))"

subsection \<open>traverseGraphAndFindUniquePath\<close>

text \<open>A \<open>for ... of\<close> loop that returns the first result that is not \<open>null\<close>.\<close>

fun first_result :: "('a \<Rightarrow> error + 'b option) \<Rightarrow> 'a list \<Rightarrow> error + 'b option" where
  "first_result f [] = Inr None"
| "first_result f (x # xs) =
     (case f x of
        Inl e \<Rightarrow> Inl e
      | Inr (Some r) \<Rightarrow> Inr (Some r)
      | Inr None \<Rightarrow> first_result f xs)"

lemma first_result_cong:
  "xs = ys \<Longrightarrow> (\<And>x. x \<in> set ys \<Longrightarrow> f x = g x) \<Longrightarrow> first_result f xs = first_result g ys"
  by (induction ys arbitrary: xs) (auto split: sum.splits option.splits)

declare first_result_cong [fundef_cong]

text \<open>
  \<open>(this.graph.successors(token) || []).filter(successor => !tokenPath.includes(successor))\<close>
\<close>

definition unvisitedSuccessors :: "PathGraph \<Rightarrow> string \<Rightarrow> string list \<Rightarrow> string list" where
  "unvisitedSuccessors this tok tokenPath =
     filter (\<lambda>successor. successor \<notin> set tokenPath) (or_empty (successors (graph this) tok))"

text \<open>The block \<open>if (successors.includes(tokenOut)) { ... }\<close>.\<close>

definition tryDirectPath ::
  "PathGraph \<Rightarrow> PathGraphTraversalConfig \<Rightarrow> string \<Rightarrow> string list \<Rightarrow> nat \<Rightarrow>
   string list \<Rightarrow> string list \<Rightarrow> string list \<Rightarrow> error + PathGraphEdge list option" where
  "tryDirectPath this config tOut tokenPath tokenPairIndex seenPoolAddrs selectedIds succs =
     (if tOut \<in> set succs then
        (case buildPath this (tokenPath @ [tOut]) tokenPairIndex of
           Inl e \<Rightarrow> Inl e
         | Inr None \<Rightarrow> Inr None
         | Inr (Some pth) \<Rightarrow>
             if isValidPath this pth seenPoolAddrs selectedIds config then Inr (Some pth)
             else Inr None)
      else Inr None)"

text \<open>
  \<open>sortBy(successors, s => children(s).includes(tokenOut) ? -1 : 1)\<close>, a stable sort,
  filtered once more against the token path.
\<close>

definition sortedAndFiltered :: "PathGraph \<Rightarrow> string \<Rightarrow> string list \<Rightarrow> string list \<Rightarrow> string list" where
  "sortedAndFiltered this tOut tokenPath succs =
     filter (\<lambda>successor. successor \<notin> set tokenPath)
       (sort_key (\<lambda>successor.
                    if tOut \<in> set (or_empty (successors (graph this) successor))
                    then (- 1 :: int) else 1) succs)"

lemma isValidTokenPath_maxDepth:
  "isValidTokenPath this config tokenPath tIn tOut \<Longrightarrow> int (length tokenPath) \<le> maxDepth config"
  by (auto simp: isValidTokenPath_def Let_def split: if_splits)

function traverseGraphAndFindUniquePath ::
  "PathGraph \<Rightarrow> PathGraphTraversalConfig \<Rightarrow> string \<Rightarrow> string \<Rightarrow> string \<Rightarrow> string list \<Rightarrow> nat \<Rightarrow>
   string list \<Rightarrow> string list \<Rightarrow> error + PathGraphEdge list option" where
  "traverseGraphAndFindUniquePath this config tok tIn tOut tokenPath tokenPairIndex
       seenPoolAddrs selectedIds =
     (if \<not> isValidTokenPath this config tokenPath tIn tOut then Inr None
      else
        (case tryDirectPath this config tOut tokenPath tokenPairIndex seenPoolAddrs selectedIds
                (unvisitedSuccessors this tok tokenPath) of
           Inl e \<Rightarrow> Inl e
         | Inr (Some pth) \<Rightarrow> Inr (Some pth)
         | Inr None \<Rightarrow>
             first_result
               (\<lambda>successor.
                  traverseGraphAndFindUniquePath this config successor tIn tOut
                    (tokenPath @ [successor]) tokenPairIndex seenPoolAddrs selectedIds)
               (sortedAndFiltered this tOut tokenPath (unvisitedSuccessors this tok tokenPath))))"
  by pat_completeness auto
termination
proof (relation "measure (\<lambda>(this, config, tok, tIn, tOut, tokenPath, rest).
                    nat (maxDepth config + 1 - int (length tokenPath)))")
  show "wf (measure (\<lambda>(this, config, tok, tIn, tOut, tokenPath, rest).
                    nat (maxDepth config + 1 - int (length tokenPath))))"
    by simp
next
  fix this :: PathGraph and config :: PathGraphTraversalConfig
    and tok tIn tOut :: string and tokenPath :: "string list" and tokenPairIndex :: nat
    and seenPoolAddrs selectedIds :: "string list" and x x2 successor
  assume "\<not> \<not> isValidTokenPath this config tokenPath tIn tOut"
  then have "int (length tokenPath) \<le> maxDepth config"
    using isValidTokenPath_maxDepth by blast
  then show "((this, config, successor, tIn, tOut, tokenPath @ [successor], tokenPairIndex,
               seenPoolAddrs, selectedIds),
              (this, config, tok, tIn, tOut, tokenPath, tokenPairIndex, seenPoolAddrs, selectedIds))
          \<in> measure (\<lambda>(this, config, tok, tIn, tOut, tokenPath, rest).
                    nat (maxDepth config + 1 - int (length tokenPath)))"
    by simp
qed

declare traverseGraphAndFindUniquePath.simps [simp del]

text \<open>
  The segments a path can be made of: one for every edge of the graph, between the
  edge's own end points.
\<close>

definition segments :: "Graph \<Rightarrow> PathGraphEdge set" where
  "segments g = (\<lambda>e. mk_segment (edge_v e) (edge_w e) (edge_label e)) ` set g"

lemma finite_segments: "finite (segments g)"
  by (simp add: segments_def)

lemma outEdges_segment:
  assumes "e \<in> set (or_empty (outEdges g a b))"
  shows "mk_segment a b (edge_label e) \<in> segments g"
proof -
  from assms have "e \<in> set g" "edge_v e = a" "edge_w e = b"
    by (auto simp: or_empty_def outEdges_def split: if_splits)
  then show ?thesis unfolding segments_def by force
qed

lemma js_get_Some_mem: "js_get xs i = Some x \<Longrightarrow> x \<in> set xs"
  by (auto simp: js_get_def split: if_splits)

lemma buildPath_loop_result:
  "buildPath_loop g idx tp pth u = Inr (pth', u') \<Longrightarrow>
   \<exists>new. pth' = pth @ new \<and> set new \<subseteq> segments g \<and> length new = length tp - 1 \<and>
     map tokenIn new = butlast tp \<and> map tokenOut new = tl tp \<and> (u' \<longrightarrow> u \<or> new \<noteq> [])"
proof (induction g idx tp pth u rule: buildPath_loop.induct)
  case (1 g idx a b rest pth isUnique)
  let ?es = "or_empty (outEdges g a b)"
  from "1.prems" obtain e where
    e: "(case js_get ?es idx of Some e \<Rightarrow> Some e | None \<Rightarrow> js_get ?es 0) = Some e"
    and rec: "buildPath_loop g idx (b # rest) (pth @ [mk_segment a b (edge_label e)])
            (isUnique \<or> length ?es > idx) = Inr (pth', u')"
    by (auto simp: Let_def split: option.splits)
  from e have "e \<in> set ?es"
    by (auto split: option.splits dest: js_get_Some_mem)
  then have seg: "mk_segment a b (edge_label e) \<in> segments g"
    by (rule outEdges_segment)
  from "1.IH"[OF refl e rec] obtain new where
    new: "pth' = (pth @ [mk_segment a b (edge_label e)]) @ new" "set new \<subseteq> segments g"
      "length new = length (b # rest) - 1" "map tokenIn new = butlast (b # rest)"
      "map tokenOut new = tl (b # rest)"
    by blast
  let ?new = "mk_segment a b (edge_label e) # new"
  have "pth' = pth @ ?new" using new(1) by simp
  moreover have "set ?new \<subseteq> segments g" using seg new(2) by simp
  moreover have "length ?new = length (a # b # rest) - 1" using new(3) by simp
  moreover have "map tokenIn ?new = butlast (a # b # rest)"
    using new(4) by (simp add: mk_segment_def)
  moreover have "map tokenOut ?new = tl (a # b # rest)"
    using new(5) by (simp add: mk_segment_def)
  ultimately show ?case by blast
qed simp_all

lemma buildPath_result:
  assumes "buildPath this tp idx = Inr (Some pth)"
  shows "set pth \<subseteq> segments (graph this) \<and> length pth = length tp - 1 \<and> pth \<noteq> [] \<and>
     map tokenIn pth = butlast tp \<and> map tokenOut pth = tl tp"
proof -
  from assms obtain u where "buildPath_loop (graph this) idx tp [] False = Inr (pth, u)" and u
    by (auto simp: buildPath_def split: sum.splits if_splits)
  from buildPath_loop_result[OF this(1)] \<open>u\<close> show ?thesis by auto
qed

lemma first_result_Some:
  "first_result f xs = Inr (Some r) \<Longrightarrow> \<exists>x \<in> set xs. f x = Inr (Some r)"
  by (induction xs) (auto split: sum.splits option.splits)

lemma set_sortedAndFiltered:
  "set (sortedAndFiltered this tOut tokenPath succs) = {s \<in> set succs. s \<notin> set tokenPath}"
  by (auto simp: sortedAndFiltered_def)

lemma traverse_result:
  "traverseGraphAndFindUniquePath this config tok tIn tOut tokenPath idx seen sel = Inr (Some pth) \<Longrightarrow>
   \<exists>mid. buildPath this (tokenPath @ mid @ [tOut]) idx = Inr (Some pth) \<and>
      isValidPath this pth seen sel config \<and>
      isValidTokenPath this config (tokenPath @ mid) tIn tOut \<and>
      (distinct tokenPath \<longrightarrow> distinct (tokenPath @ mid @ [tOut]))"
proof (induction this config tok tIn tOut tokenPath idx seen sel
    rule: traverseGraphAndFindUniquePath.induct)
  case (1 this config tok tIn tOut tokenPath idx seen sel)
  let ?succs = "unvisitedSuccessors this tok tokenPath"
  from "1.prems" have valid: "isValidTokenPath this config tokenPath tIn tOut"
    by (subst (asm) traverseGraphAndFindUniquePath.simps) (simp split: if_splits)
  show ?case
  proof (cases "tryDirectPath this config tOut tokenPath idx seen sel ?succs")
    case (Inl e)
    with "1.prems" valid show ?thesis
      by (subst (asm) traverseGraphAndFindUniquePath.simps) simp
  next
    case (Inr r)
    show ?thesis
    proof (cases r)
      case (Some p)
      with Inr "1.prems" valid have "p = pth"
        by (subst (asm) traverseGraphAndFindUniquePath.simps) simp
      with Some Inr have d: "tryDirectPath this config tOut tokenPath idx seen sel ?succs = Inr (Some pth)"
        by simp
      then have "tOut \<in> set ?succs" "buildPath this (tokenPath @ [tOut]) idx = Inr (Some pth)"
        "isValidPath this pth seen sel config"
        by (auto simp: tryDirectPath_def split: if_splits sum.splits option.splits)
      moreover from this(1) have "tOut \<notin> set tokenPath"
        by (simp add: unvisitedSuccessors_def)
      ultimately show ?thesis using valid
        by (intro exI[of _ "[]"]) simp
    next
      case None
      with Inr "1.prems" valid have
        "first_result (\<lambda>successor. traverseGraphAndFindUniquePath this config successor tIn tOut
                    (tokenPath @ [successor]) idx seen sel)
           (sortedAndFiltered this tOut tokenPath ?succs) = Inr (Some pth)"
        by (subst (asm) traverseGraphAndFindUniquePath.simps) simp
      from first_result_Some[OF this] obtain s where
        s: "s \<in> set (sortedAndFiltered this tOut tokenPath ?succs)"
        and r: "traverseGraphAndFindUniquePath this config s tIn tOut (tokenPath @ [s]) idx seen sel
             = Inr (Some pth)"
        by blast
      from s have fresh: "s \<notin> set tokenPath" by (simp add: set_sortedAndFiltered)
      have v': "\<not> \<not> isValidTokenPath this config tokenPath tIn tOut" using valid by simp
      from "1.IH"[OF v' Inr None s r] obtain mid where
        mid: "buildPath this ((tokenPath @ [s]) @ mid @ [tOut]) idx = Inr (Some pth)"
          "isValidPath this pth seen sel config"
          "isValidTokenPath this config ((tokenPath @ [s]) @ mid) tIn tOut"
          "distinct (tokenPath @ [s]) \<longrightarrow> distinct ((tokenPath @ [s]) @ mid @ [tOut])"
        by blast
      show ?thesis
        using mid fresh by (intro exI[of _ "s # mid"]) simp
    qed
  qed
qed

lemma length_uniq_le: "length (uniq seen xs) \<le> length xs"
  by (induction xs arbitrary: seen) (auto simp: le_SucI)

lemma length_uniq_eq:
  "length (uniq seen xs) = length xs \<longleftrightarrow> distinct xs \<and> set xs \<inter> set seen = {}"
proof (induction xs arbitrary: seen)
  case Nil
  then show ?case by simp
next
  case (Cons x xs)
  show ?case
  proof (cases "x \<in> set seen")
    case True
    have "length (uniq seen xs) \<le> length xs" by (rule length_uniq_le)
    with True show ?thesis by auto
  next
    case False
    with Cons[of "seen @ [x]"] show ?thesis by auto
  qed
qed

lemma isValidPath_facts:
  assumes "isValidPath this pth seen sel config"
  shows "distinct (map poolId pth)" "\<forall>s \<in> set pth. poolAddress s \<notin> set seen"
    "getIdForPath pth \<notin> set sel"
    "(\<forall>e \<in> set pth. \<not> truthy (poolAddressMap this (tokenIn e)) \<and>
                       \<not> truthy (poolAddressMap this (tokenOut e)))
       \<longrightarrow> int (length pth) + 1 \<le> maxNonBoostedPathDepth config"
proof -
  from assms have u: "length (uniq [] (map poolId pth)) = length pth"
    and s: "filter (\<lambda>segment. poolAddress segment \<in> set seen) pth = []"
    and i: "getIdForPath pth \<notin> set sel"
    and b: "\<not> (length (filter (\<lambda>e. truthy (poolAddressMap this (tokenIn e)) \<or>
                                     truthy (poolAddressMap this (tokenOut e))) pth) = 0
          \<and> int (length pth) + 1 > maxNonBoostedPathDepth config)"
    unfolding isValidPath_def Let_def by (auto split: if_splits)
  from u show "distinct (map poolId pth)"
    using length_uniq_eq[of "[]" "map poolId pth"] by simp
  from s show "\<forall>s \<in> set pth. poolAddress s \<notin> set seen"
    by (simp add: filter_empty_conv)
  from i show "getIdForPath pth \<notin> set sel" .
  from b show "(\<forall>e \<in> set pth. \<not> truthy (poolAddressMap this (tokenIn e)) \<and>
                       \<not> truthy (poolAddressMap this (tokenOut e)))
       \<longrightarrow> int (length pth) + 1 \<le> maxNonBoostedPathDepth config"
    by (auto simp: filter_empty_conv)
qed

lemma traverse_progress:
  assumes "traverseGraphAndFindUniquePath this config tok tIn tOut tokenPath idx seen sel = Inr (Some pth)"
  shows "pth \<noteq> []" "set pth \<subseteq> segments (graph this)" "\<forall>s \<in> set pth. poolAddress s \<notin> set seen"
    "getIdForPath pth \<notin> set sel" "length pth \<le> nat (maxDepth config)"
proof -
  from traverse_result[OF assms] obtain mid where
    mid: "buildPath this (tokenPath @ mid @ [tOut]) idx = Inr (Some pth)"
      "isValidPath this pth seen sel config"
      "isValidTokenPath this config (tokenPath @ mid) tIn tOut"
    by blast
  from buildPath_result[OF mid(1)] show "pth \<noteq> []" "set pth \<subseteq> segments (graph this)"
    by simp_all
  from isValidPath_facts[OF mid(2)] show "\<forall>s \<in> set pth. poolAddress s \<notin> set seen"
    "getIdForPath pth \<notin> set sel" by simp_all
  from buildPath_result[OF mid(1)] have "length pth = length (tokenPath @ mid)" by simp
  with isValidTokenPath_maxDepth[OF mid(3)] show "length pth \<le> nat (maxDepth config)"
    by simp
qed

subsection \<open>traverseGraphAndFindBestPaths\<close>

text \<open>
  The three local variables of the method: \<open>paths\<close>, \<open>selectedPathIds\<close> and
  \<open>seenPoolAddresses\<close>.
\<close>

record SearchState =
  paths :: "PathGraphEdge list list"
  selectedPathIds :: "string list"
  seenPoolAddresses :: "string list"

text \<open>
  The loop \<open>while (foundPath)\<close> for one \<open>idx\<close>. Every path found uses a pool that was not
  seen before, and the graph has finitely many pools: the loop ends.
\<close>

function findPathsAtIndex ::
  "PathGraph \<Rightarrow> PathGraphTraversalConfig \<Rightarrow> string \<Rightarrow> string \<Rightarrow> nat \<Rightarrow> SearchState \<Rightarrow>
   error + SearchState" where
  "findPathsAtIndex this config tIn tOut idx st =
     (case traverseGraphAndFindUniquePath this config tIn tIn tOut [tIn] idx
             (seenPoolAddresses st) (selectedPathIds st) of
        Inl e \<Rightarrow> Inl e
      | Inr None \<Rightarrow> Inr st
      | Inr (Some pth) \<Rightarrow>
          findPathsAtIndex this config tIn tOut idx
            \<lparr> paths = paths st @ [pth],
              selectedPathIds = selectedPathIds st @ [getIdForPath pth],
              seenPoolAddresses = seenPoolAddresses st @ map poolAddress pth \<rparr>)"
  by pat_completeness auto
termination
proof (relation "measure (\<lambda>(this, config, tIn, tOut, idx, st).
          card (poolAddress ` segments (graph this) - set (seenPoolAddresses st)))")
  show "wf (measure (\<lambda>(this, config, tIn, tOut, idx, st).
          card (poolAddress ` segments (graph this) - set (seenPoolAddresses st))))"
    by simp
next
  fix this :: PathGraph and config :: PathGraphTraversalConfig and tIn tOut :: string
    and idx :: nat and st :: SearchState and x2 pth
  assume "traverseGraphAndFindUniquePath this config tIn tIn tOut [tIn] idx
             (seenPoolAddresses st) (selectedPathIds st) = Inr x2" and "x2 = Some pth"
  then have t: "traverseGraphAndFindUniquePath this config tIn tIn tOut [tIn] idx
             (seenPoolAddresses st) (selectedPathIds st) = Inr (Some pth)" by simp
  let ?A = "poolAddress ` segments (graph this)"
  from traverse_progress(1)[OF t] obtain s where s: "s \<in> set pth" by (cases pth) auto
  with traverse_progress(2,3)[OF t] have "poolAddress s \<in> ?A" "poolAddress s \<notin> set (seenPoolAddresses st)"
    by auto
  with s have "?A - set (seenPoolAddresses st @ map poolAddress pth) \<subset> ?A - set (seenPoolAddresses st)"
    by auto
  moreover have "finite (?A - set (seenPoolAddresses st))"
    by (simp add: finite_segments)
  ultimately have "card (?A - set (seenPoolAddresses st @ map poolAddress pth))
      < card (?A - set (seenPoolAddresses st))"
    by (rule psubset_card_mono[rotated])
  then show "((this, config, tIn, tOut, idx,
        \<lparr> paths = paths st @ [pth],
              selectedPathIds = selectedPathIds st @ [getIdForPath pth],
              seenPoolAddresses = seenPoolAddresses st @ map poolAddress pth \<rparr>),
       (this, config, tIn, tOut, idx, st))
      \<in> measure (\<lambda>(this, config, tIn, tOut, idx, st).
          card (poolAddress ` segments (graph this) - set (seenPoolAddresses st)))"
    by simp
qed

declare findPathsAtIndex.simps [simp del]

text \<open>The loop \<open>for (idx = 0; idx < this.maxPathsPerTokenPair; idx++)\<close>.\<close>

fun searchAllIndexes ::
  "PathGraph \<Rightarrow> PathGraphTraversalConfig \<Rightarrow> string \<Rightarrow> string \<Rightarrow> nat list \<Rightarrow> SearchState \<Rightarrow>
   error + SearchState" where
  "searchAllIndexes this config tIn tOut [] st = Inr st"
| "searchAllIndexes this config tIn tOut (idx # idxs) st =
     (case findPathsAtIndex this config tIn tOut idx st of
        Inl e \<Rightarrow> Inl e
      | Inr st' \<Rightarrow> searchAllIndexes this config tIn tOut idxs st')"

definition searchRound ::
  "PathGraph \<Rightarrow> PathGraphTraversalConfig \<Rightarrow> string \<Rightarrow> string \<Rightarrow> SearchState \<Rightarrow> error + SearchState" where
  "searchRound this config tIn tOut st =
     searchAllIndexes this config tIn tOut [0 ..< maxPathsPerTokenPair this] st"

text \<open>
  \<open>poolAddresses.filter(a => this.poolAddressMap[a].poolType === PoolType.Weighted)\<close>; an
  address that is not in the map throws.
\<close>

fun filterVolatilePools :: "PathGraph \<Rightarrow> string list \<Rightarrow> error + string list" where
  "filterVolatilePools this [] = Inr []"
| "filterVolatilePools this (a # as) =
     (case poolAddressMap this a of
        None \<Rightarrow> Inl TypeError
      | Some pool \<Rightarrow>
          (case filterVolatilePools this as of
             Inl e \<Rightarrow> Inl e
           | Inr rest \<Rightarrow> Inr (if poolType pool = Weighted then a # rest else rest)))"

text \<open>
  The ids of the paths the search can ever select: finitely many, which bounds the outer
  loop.
\<close>

definition pathIds :: "PathGraph \<Rightarrow> PathGraphTraversalConfig \<Rightarrow> string set" where
  "pathIds this config =
     getIdForPath ` {l. set l \<subseteq> segments (graph this) \<and> length l \<le> nat (maxDepth config)}"

lemma finite_pathIds: "finite (pathIds this config)"
  unfolding pathIds_def by (intro finite_imageI finite_lists_length_le finite_segments)

definition progress :: "PathGraph \<Rightarrow> PathGraphTraversalConfig \<Rightarrow> SearchState \<Rightarrow> SearchState \<Rightarrow> bool" where
  "progress this config st st' \<longleftrightarrow>
     set (selectedPathIds st) \<subseteq> set (selectedPathIds st') \<and>
     (\<exists>x \<in> pathIds this config. x \<in> set (selectedPathIds st') \<and> x \<notin> set (selectedPathIds st))"

lemma progress_trans:
  "progress this config st st1 \<Longrightarrow> st2 = st1 \<or> progress this config st1 st2 \<Longrightarrow>
   progress this config st st2"
  unfolding progress_def by blast

lemma findPathsAtIndex_progress:
  "findPathsAtIndex this config tIn tOut idx st = Inr st' \<Longrightarrow>
   st' = st \<or> progress this config st st'"
proof (induction this config tIn tOut idx st rule: findPathsAtIndex.induct)
  case (1 this config tIn tOut idx st)
  let ?t = "traverseGraphAndFindUniquePath this config tIn tIn tOut [tIn] idx
             (seenPoolAddresses st) (selectedPathIds st)"
  show ?case
  proof (cases ?t)
    case (Inl e)
    with "1.prems" show ?thesis by (subst (asm) findPathsAtIndex.simps) simp
  next
    case (Inr r)
    show ?thesis
    proof (cases r)
      case None
      with Inr "1.prems" show ?thesis by (subst (asm) findPathsAtIndex.simps) simp
    next
      case (Some pth)
      let ?st1 = "\<lparr> paths = paths st @ [pth],
              selectedPathIds = selectedPathIds st @ [getIdForPath pth],
              seenPoolAddresses = seenPoolAddresses st @ map poolAddress pth \<rparr>"
      from Some Inr have t: "?t = Inr (Some pth)" by simp
      with "1.prems" have rec: "findPathsAtIndex this config tIn tOut idx ?st1 = Inr st'"
        by (subst (asm) findPathsAtIndex.simps) simp
      from "1.IH"[OF Inr Some rec] have ih: "st' = ?st1 \<or> progress this config ?st1 st'" .
      from traverse_progress(2,4,5)[OF t] have "getIdForPath pth \<in> pathIds this config"
        "getIdForPath pth \<notin> set (selectedPathIds st)"
        unfolding pathIds_def by auto
      then have "progress this config st ?st1"
        unfolding progress_def by auto
      from progress_trans[OF this ih] show ?thesis by simp
    qed
  qed
qed

lemma searchAllIndexes_progress:
  "searchAllIndexes this config tIn tOut idxs st = Inr st' \<Longrightarrow>
   st' = st \<or> progress this config st st'"
proof (induction idxs arbitrary: st)
  case Nil
  then show ?case by simp
next
  case (Cons idx idxs)
  then obtain st1 where a: "findPathsAtIndex this config tIn tOut idx st = Inr st1"
    and b: "searchAllIndexes this config tIn tOut idxs st1 = Inr st'"
    by (auto split: sum.splits)
  from findPathsAtIndex_progress[OF a] Cons.IH[OF b] show ?case
    using progress_trans by blast
qed

lemma filterVolatilePools_Inr:
  "filterVolatilePools this as = Inr vol \<Longrightarrow>
   vol = filter (\<lambda>a. \<exists>p. poolAddressMap this a = Some p \<and> poolType p = Weighted) as \<and>
   (\<forall>a \<in> set as. poolAddressMap this a \<noteq> None)"
  by (induction as arbitrary: vol) (auto split: option.splits sum.splits if_splits)

text \<open>
  The relaxation at the end of a round: \<open>seenPoolAddresses\<close> becomes the volatile
  addresses when there is at least one and at least one address is not volatile, and
  the empty list otherwise.
\<close>

definition relaxSeenPools :: "string list \<Rightarrow> string list \<Rightarrow> string list" where
  "relaxSeenPools seen volatilePoolAddresses =
     (if length volatilePoolAddresses > 0 \<and> length volatilePoolAddresses < length seen
      then volatilePoolAddresses else [])"

text \<open>
  The loop \<open>while (paths.length < config.approxPathsToReturn)\<close>. A round that selects a
  path uses up one of the finitely many path ids; a round that selects none leaves the
  state as it was, and the relaxation that follows shortens \<open>seenPoolAddresses\<close>.
\<close>

function bestPathsLoop ::
  "PathGraph \<Rightarrow> PathGraphTraversalConfig \<Rightarrow> string \<Rightarrow> string \<Rightarrow> SearchState \<Rightarrow> error + SearchState" where
  "bestPathsLoop this config tIn tOut st =
     (if int (length (paths st)) < approxPathsToReturn config then
        (case searchRound this config tIn tOut st of
           Inl e \<Rightarrow> Inl e
         | Inr st' \<Rightarrow>
             if int (length (paths st')) < approxPathsToReturn config \<and>
                length (seenPoolAddresses st') > 0
             then
               (case filterVolatilePools this (seenPoolAddresses st') of
                  Inl e \<Rightarrow> Inl e
                | Inr volatilePoolAddresses \<Rightarrow>
                    bestPathsLoop this config tIn tOut
                      (st'\<lparr> seenPoolAddresses :=
                               relaxSeenPools (seenPoolAddresses st') volatilePoolAddresses \<rparr>))
             else Inr st')
      else Inr st)"
  by pat_completeness auto
termination
proof (relation "inv_image (less_than <*lex*> less_than)
         (\<lambda>(this, config, tIn, tOut, st).
            (card (pathIds this config - set (selectedPathIds st)), length (seenPoolAddresses st)))")
  show "wf (inv_image (less_than <*lex*> less_than)
         (\<lambda>(this, config, tIn, tOut, st).
            (card (pathIds this config - set (selectedPathIds st)), length (seenPoolAddresses st))))"
    by (intro wf_inv_image wf_lex_prod wf_less_than)
next
  fix this :: PathGraph and config :: PathGraphTraversalConfig and tIn tOut :: string
    and st st' :: SearchState and vol
  assume r: "searchRound this config tIn tOut st = Inr st'"
    and c: "int (length (paths st')) < approxPathsToReturn config \<and> 0 < length (seenPoolAddresses st')"
    and f: "filterVolatilePools this (seenPoolAddresses st') = Inr vol"
  let ?U = "pathIds this config"
  have shorter: "length (relaxSeenPools (seenPoolAddresses st') vol) < length (seenPoolAddresses st')"
    using c by (simp add: relaxSeenPools_def)
  from r have "st' = st \<or> progress this config st st'"
    unfolding searchRound_def by (rule searchAllIndexes_progress)
  then have "card (?U - set (selectedPathIds st')) < card (?U - set (selectedPathIds st))
      \<or> (card (?U - set (selectedPathIds st')) = card (?U - set (selectedPathIds st))
          \<and> length (relaxSeenPools (seenPoolAddresses st') vol) < length (seenPoolAddresses st))"
  proof
    assume "st' = st"
    with shorter show ?thesis by simp
  next
    assume "progress this config st st'"
    then have "?U - set (selectedPathIds st') \<subset> ?U - set (selectedPathIds st)"
      unfolding progress_def by blast
    moreover have "finite (?U - set (selectedPathIds st))"
      by (simp add: finite_pathIds)
    ultimately have "card (?U - set (selectedPathIds st')) < card (?U - set (selectedPathIds st))"
      by (rule psubset_card_mono[rotated])
    then show ?thesis by simp
  qed
  then show "((this, config, tIn, tOut,
          st'\<lparr> seenPoolAddresses := relaxSeenPools (seenPoolAddresses st') vol \<rparr>),
         (this, config, tIn, tOut, st))
      \<in> inv_image (less_than <*lex*> less_than)
         (\<lambda>(this, config, tIn, tOut, st).
            (card (pathIds this config - set (selectedPathIds st)), length (seenPoolAddresses st)))"
    by auto
qed

declare bestPathsLoop.simps [simp del]

text \<open>
  \<open>pathConfig?: Partial<PathGraphTraversalConfig>\<close>: every option may be absent, and the
  defaults fill in: \<open>{ maxDepth: 7, maxNonBoostedPathDepth: 3,
  maxNonBoostedHopTokensInBoostedPath: 1, approxPathsToReturn: 5, ...pathConfig }\<close>. An
  option that is present holds a value.
\<close>

record PartialConfig =
  opt_maxDepth :: "int option"
  opt_maxNonBoostedPathDepth :: "int option"
  opt_maxNonBoostedHopTokensInBoostedPath :: "int option"
  opt_approxPathsToReturn :: "int option"
  opt_poolIdsToInclude :: "string list option"

definition or_default :: "'a \<Rightarrow> 'a option \<Rightarrow> 'a" where
  "or_default d x = (case x of None \<Rightarrow> d | Some y \<Rightarrow> y)"

definition applyDefaults :: "PartialConfig option \<Rightarrow> PathGraphTraversalConfig" where
  "applyDefaults pathConfig =
     (case pathConfig of
        None \<Rightarrow>
          \<lparr> maxDepth = 7, maxNonBoostedPathDepth = 3, maxNonBoostedHopTokensInBoostedPath = 1,
            approxPathsToReturn = 5, poolIdsToInclude = None \<rparr>
      | Some c \<Rightarrow>
          \<lparr> maxDepth = or_default 7 (opt_maxDepth c),
            maxNonBoostedPathDepth = or_default 3 (opt_maxNonBoostedPathDepth c),
            maxNonBoostedHopTokensInBoostedPath =
              or_default 1 (opt_maxNonBoostedHopTokensInBoostedPath c),
            approxPathsToReturn = or_default 5 (opt_approxPathsToReturn c),
            poolIdsToInclude = opt_poolIdsToInclude c \<rparr>)"

text \<open>
  The result of the method: \<open>{ tokens, pools }\<close> for every selected path, where
  \<open>tokens\<close> is \<open>path[0].poolPair.tokenIn\<close> followed by every segment's
  \<open>poolPair.tokenOut\<close>, and \<open>pools\<close> looks every segment's pool address up in the map
  (\<open>None\<close> is \<open>undefined\<close>).
\<close>

record FoundPath =
  found_tokens :: "Token list"
  found_pools :: "Pool option list"

definition toPath :: "PathGraph \<Rightarrow> PathGraphEdge list \<Rightarrow> error + FoundPath" where
  "toPath this pth =
     (case pth of
        [] \<Rightarrow> Inl TypeError
      | first # _ \<Rightarrow>
          Inr \<lparr> found_tokens =
                  pair_tokenIn (poolPair first) #
                    map (\<lambda>segment. pair_tokenOut (poolPair segment)) pth,
                found_pools = map (\<lambda>segment. poolAddressMap this (poolAddress segment)) pth \<rparr>)"

fun toPaths :: "PathGraph \<Rightarrow> PathGraphEdge list list \<Rightarrow> error + FoundPath list" where
  "toPaths this [] = Inr []"
| "toPaths this (pth # rest) =
     (case toPath this pth of
        Inl e \<Rightarrow> Inl e
      | Inr p \<Rightarrow> (case toPaths this rest of Inl e \<Rightarrow> Inl e | Inr ps \<Rightarrow> Inr (p # ps)))"

definition traverseGraphAndFindBestPaths ::
  "PathGraph \<Rightarrow> Token \<Rightarrow> Token \<Rightarrow> PartialConfig option \<Rightarrow> error + FoundPath list" where
  "traverseGraphAndFindBestPaths this tIn tOut pathConfig =
     (if \<not> hasNode (graph this) (address tIn) \<or> \<not> hasNode (graph this) (address tOut)
      then Inr []
      else
        case bestPathsLoop this (applyDefaults pathConfig) (address tIn) (address tOut)
               \<lparr> paths = [], selectedPathIds = [], seenPoolAddresses = [] \<rparr> of
          Inl e \<Rightarrow> Inl e
        | Inr st \<Rightarrow> toPaths this (paths st))"

section \<open>Invariants of the pool pair map, of the graph and of the search\<close>











text \<open>
  What \<open>buildGraph\<close> establishes for every edge: its end points are the addresses of its
  pool pair's tokens, its name is made of its pool id and end points, and the map has its
  pool under the label's pool address.
\<close>

definition edge_ok :: "(string \<rightharpoonup> Pool) \<Rightarrow> GraphEdge \<Rightarrow> bool" where
  "edge_ok m e \<longleftrightarrow>
     address (pair_tokenIn (poolPair (edge_label e))) = edge_v e \<and>
     address (pair_tokenOut (poolPair (edge_label e))) = edge_w e \<and>
     edge_name e = poolId (edge_label e) @ ''-'' @ edge_v e @ ''-'' @ edge_w e \<and>
     (\<exists>p. m (poolAddress (edge_label e)) = Some p \<and> pool_id p = poolId (edge_label e) \<and>
          pair_pool (poolPair (edge_label e)) = p)"

definition wf_PathGraph :: "PathGraph \<Rightarrow> bool" where
  "wf_PathGraph this \<longleftrightarrow> (\<forall>e \<in> set (graph this). edge_ok (poolAddressMap this) e)"

text \<open>
  What the search establishes for every path it selects: at least one segment, every
  segment an edge of the graph, no pool id twice and no token address twice.
\<close>

definition accepted :: "PathGraph \<Rightarrow> PathGraphEdge list \<Rightarrow> bool" where
  "accepted this pth \<longleftrightarrow>
     pth \<noteq> [] \<and> set pth \<subseteq> segments (graph this) \<and> distinct (map poolId pth) \<and>
     distinct (tokenIn (hd pth) # map tokenOut pth)"

text \<open>
  A token path every hop of which has an edge, and a search state whose seen pool
  addresses are all in the map: on these neither \<open>buildPath\<close> nor \<open>filterVolatilePools\<close>
  throws.
\<close>

fun is_walk :: "Graph \<Rightarrow> string list \<Rightarrow> bool" where
  "is_walk g (a # b # rest) \<longleftrightarrow> (\<exists>e \<in> set g. edge_v e = a \<and> edge_w e = b) \<and> is_walk g (b # rest)"
| "is_walk g tp \<longleftrightarrow> True"

definition seen_ok :: "PathGraph \<Rightarrow> SearchState \<Rightarrow> bool" where
  "seen_ok this st \<longleftrightarrow> (\<forall>a \<in> set (seenPoolAddresses st). \<exists>p. poolAddressMap this a = Some p)"

section \<open>Concrete tokens, pools and routes\<close>

text \<open>\<open>TokenAmount.fromRawAmount(token, rawAmount)\<close>: the amount of a token.\<close>

definition fromRawAmount :: "Token \<Rightarrow> int \<Rightarrow> TokenAmount" where
  "fromRawAmount t n = \<lparr> token = t, amount = n \<rparr>"

definition tokA :: Token where
  "tokA = \<lparr> ref = 1, chainId = 1, address = ''0xA'', decimals = 18, isNative = False,
            wrapped = ''0xA'' \<rparr>"

definition tokB :: Token where
  "tokB = \<lparr> ref = 2, chainId = 1, address = ''0xB'', decimals = 18, isNative = False,
            wrapped = ''0xB'' \<rparr>"

definition tokC :: Token where
  "tokC = \<lparr> ref = 3, chainId = 1, address = ''0xC'', decimals = 18, isNative = False,
            wrapped = ''0xC'' \<rparr>"

text \<open>
  A pool whose quotes are easy to follow by hand: given in \<open>x\<close> it pays out \<open>2 * x - 1\<close> of
  the output token, given out \<open>y\<close> it asks for \<open>y div 2 + 1\<close> of the input token.
\<close>

definition ex_swapGivenIn ::
  "Token option \<Rightarrow> Token option \<Rightarrow> TokenAmount option \<Rightarrow> error + TokenAmount" where
  "ex_swapGivenIn tIn tOut a =
     (case (tOut, a) of
        (Some t, Some x) \<Rightarrow> Inr (fromRawAmount t (2 * amount x - 1))
      | _ \<Rightarrow> Inl (PoolError ''undefined argument''))"

definition ex_swapGivenOut ::
  "Token option \<Rightarrow> Token option \<Rightarrow> TokenAmount option \<Rightarrow> error + TokenAmount" where
  "ex_swapGivenOut tIn tOut a =
     (case (tIn, a) of
        (Some t, Some x) \<Rightarrow> Inr (fromRawAmount t (amount x div 2 + 1))
      | _ \<Rightarrow> Inl (PoolError ''undefined argument''))"

definition ex_pool :: "string \<Rightarrow> string \<Rightarrow> PoolType \<Rightarrow> Token list \<Rightarrow> int \<Rightarrow> Pool" where
  "ex_pool i a ty ts liq =
     \<lparr> pool_id = i, pool_address = a, poolType = ty,
       pool_tokens = map (\<lambda>t. fromRawAmount t 1000) ts,
       getNormalizedLiquidity = (\<lambda>_ _. liq),
       swapGivenIn = ex_swapGivenIn, swapGivenOut = ex_swapGivenOut \<rparr>"

definition poolAB :: Pool where
  "poolAB = ex_pool ''id1'' ''0xP1'' Weighted [tokA, tokB] 100"

definition poolBC :: Pool where
  "poolBC = ex_pool ''id3'' ''0xP3'' Weighted [tokB, tokC] 80"

definition pathABC :: "TokenAmount \<Rightarrow> PathWithAmount" where
  "pathABC a = new_PathWithAmount [tokA, tokB, tokC] [poolAB, poolBC] a"

definition pathAB :: "TokenAmount \<Rightarrow> PathWithAmount" where
  "pathAB a = new_PathWithAmount [tokA, tokB] [poolAB] a"

text \<open>Route entries: \<open>10 A\<close> for \<open>37 C\<close> over two pools, and \<open>20 A\<close> for \<open>75 C\<close>.\<close>

definition swapPathABC :: SwapPath where
  "swapPathABC =
     \<lparr> path = pathABC (fromRawAmount tokA 10), inputAmount = fromRawAmount tokA 10,
       outputAmount = fromRawAmount tokC 37 \<rparr>"




definition ex_step :: "string \<Rightarrow> int \<Rightarrow> int \<Rightarrow> int \<Rightarrow> BatchSwapStep" where
  "ex_step i a b n =
     \<lparr> step_poolId = i, assetInIndex = a, assetOutIndex = b, step_amount = n,
       userData = DEFAULT_USERDATA \<rparr>"

definition ex_Swap1 :: Swap where
  "ex_Swap1 =
     \<lparr> swap_paths = [swapPathABC], swap_swapKind = GivenIn, isNativeSwap = False,
       isBatchSwap = False, assets = [''0xA'', ''0xB'', ''0xC''],
       swaps = [ex_step ''id1'' 0 1 10, ex_step ''id3'' 1 2 0] \<rparr>"



text \<open>
  A router whose collaborators always succeed: one candidate path over the two pools,
  priced at \<open>37 C\<close> for the requested amount.
\<close>

definition ex_sor :: "Pool list \<Rightarrow> SorConfig" where
  "ex_sor ps =
     \<lparr> getPools = Inr ps,
       getCandidatePaths =
         (\<lambda>tIn tOut k pls. Inr [\<lparr> pools = [poolAB, poolBC], tokens = [tokA, tokB, tokC] \<rparr>]),
       getBestPaths =
         (\<lambda>cands k a.
            fromPaths swapAmount (\<lambda>p. fromRawAmount tokC 37)
              (map (\<lambda>c. new_PathWithAmount (tokens c) (pools c) a) cands) k a) \<rparr>"

text \<open>
  A snapshot of three pools: two weighted pools \<open>A-B\<close> and \<open>B-C\<close>, and a stable pool at
  the address \<open>0xP4\<close> that holds \<open>C\<close> and its own pool token, the token at \<open>0xP4\<close>.
\<close>

definition tokP4 :: Token where
  "tokP4 = \<lparr> ref = 4, chainId = 1, address = ''0xP4'', decimals = 18, isNative = False,
             wrapped = ''0xP4'' \<rparr>"

definition poolCP4 :: Pool where
  "poolCP4 = ex_pool ''id4'' ''0xP4'' ComposableStable [tokC, tokP4] 50"

definition ex_pools :: "Pool list" where
  "ex_pools = [poolAB, poolBC, poolCP4]"

definition ex_pg :: PathGraph where
  "ex_pg = projr (buildGraph new_PathGraph ex_pools None)"

definition ex_state0 :: SearchState where
  "ex_state0 = \<lparr> paths = [], selectedPathIds = [], seenPoolAddresses = [] \<rparr>"

text \<open>What can be read off a found path: its token addresses and its pool ids.\<close>

definition path_summary :: "FoundPath \<Rightarrow> string list \<times> string option list" where
  "path_summary p = (map address (found_tokens p), map (map_option pool_id) (found_pools p))"






section \<open>Well-formed graphs and accepted paths\<close>

lemma set_setEdge: "set (setEdge g e) \<subseteq> insert e (set g)"
  by (induction g) auto


lemma keyBy_address_Nil: "keyBy_address [] = Map.empty"
  by (simp add: keyBy_address_def)

lemma keyBy_address_snoc:
  "keyBy_address (ps @ [p]) = (keyBy_address ps)(pool_address p \<mapsto> p)"
  by (simp add: keyBy_address_def)

lemma keyBy_address_Some:
  "keyBy_address ps a = Some p \<Longrightarrow> pool_address p = a \<and> p \<in> set ps"
proof (induction ps rule: rev_induct)
  case Nil
  then show ?case by (simp add: keyBy_address_Nil)
next
  case (snoc q qs)
  show ?case
  proof (cases "a = pool_address q")
    case True
    with snoc.prems show ?thesis by (simp add: keyBy_address_snoc)
  next
    case False
    with snoc.prems have "keyBy_address qs a = Some p" by (simp add: keyBy_address_snoc)
    from snoc.IH[OF this] show ?thesis by simp
  qed
qed



lemma addGraphEdge_ok:
  assumes "m (pool_address pool) = Some pool" and "\<forall>e \<in> set g. edge_ok m e"
  shows "\<forall>e \<in> set (addGraphEdgeForPoolPair m a b pool g). edge_ok m e"
proof -
  let ?e = "\<lparr> edge_v = address a, edge_w = address b,
         edge_name = pool_id pool @ ''-'' @ address a @ ''-'' @ address b,
         edge_label =
           \<lparr> poolId = pool_id pool, poolAddress = pool_address pool,
             poolPair = \<lparr> pair_id = pair_key a b, pair_pool = pool,
                          pair_tokenIn = a, pair_tokenOut = b \<rparr>,
             normalizedLiquidity = getNormalizedLiquidity pool a b,
             isPhantomBptHop = (truthy (m (address a)) \<or> truthy (m (address b))) \<rparr> \<rparr>"
  have "edge_ok m ?e" using assms(1) by (simp add: edge_ok_def)
  with assms(2) set_setEdge[of g ?e] show ?thesis
    unfolding addGraphEdgeForPoolPair_def by blast
qed

lemma addItems_ok:
  assumes "addItems m n i items g = Inr g'"
    and "\<And>a p. m a = Some p \<Longrightarrow> pool_address p = a"
    and "\<forall>e \<in> set g. edge_ok m e"
  shows "\<forall>e \<in> set g'. edge_ok m e"
  using assms(1,3)
proof (induction items arbitrary: i g)
  case Nil
  then show ?case by simp
next
  case (Cons it its)
  let ?pp = "item_poolPair it"
  from Cons.prems(1) obtain pool where
    pool: "m (pool_address (pair_pool ?pp)) = Some pool"
    by (auto simp: Let_def split: option.splits)
  let ?g1 = "if i < n \<or> hasPhantomBpt pool (pool_address (pair_pool ?pp))
             then addGraphEdgeForPoolPair m (pair_tokenIn ?pp) (pair_tokenOut ?pp) pool g
             else g"
  from Cons.prems(1) pool have rec: "addItems m n (i + 1) its ?g1 = Inr g'"
    by (simp add: Let_def)
  from assms(2)[OF pool] pool have "m (pool_address pool) = Some pool" by simp
  from addGraphEdge_ok[OF this Cons.prems(2)] Cons.prems(2) have "\<forall>e \<in> set ?g1. edge_ok m e"
    by simp
  from Cons.IH[OF rec this] show ?case .
qed

lemma addGroups_ok:
  assumes "addGroups m n groups g = Inr g'"
    and "\<And>a p. m a = Some p \<Longrightarrow> pool_address p = a"
    and "\<forall>e \<in> set g. edge_ok m e"
  shows "\<forall>e \<in> set g'. edge_ok m e"
  using assms(1,3)
proof (induction groups arbitrary: g)
  case Nil
  then show ?case by simp
next
  case (Cons kv rest)
  obtain k items where kv: "kv = (k, items)" by (cases kv)
  with Cons.prems(1) obtain g1 where a: "addItems m n 0 items g = Inr g1"
    and b: "addGroups m n rest g1 = Inr g'"
    by (auto split: sum.splits)
  from addItems_ok[OF a assms(2) Cons.prems(2)] have "\<forall>e \<in> set g1. edge_ok m e" by simp
  from Cons.IH[OF b this] show ?case .
qed

lemma buildGraph_wf:
  assumes "buildGraph this ps n = Inr pg"
  shows "wf_PathGraph pg"
proof -
  let ?m = "keyBy_address ps"
  let ?n = "case n of None \<Rightarrow> 2 | Some k \<Rightarrow> k"
  from assms obtain g where g: "addGroups ?m ?n (buildSortedPoolPairMap ps) [] = Inr g"
    and pg: "graph pg = g" "poolAddressMap pg = ?m"
    by (auto simp: buildGraph_def Let_def split: sum.splits)
  have "\<forall>e \<in> set g. edge_ok ?m e"
    by (rule addGroups_ok[OF g]) (auto dest: keyBy_address_Some)
  with pg show ?thesis by (simp add: wf_PathGraph_def)
qed

lemma new_PathGraph_wf: "wf_PathGraph new_PathGraph"
  by (simp add: wf_PathGraph_def new_PathGraph_def)

lemma traverse_accepted:
  assumes "traverseGraphAndFindUniquePath this config tIn tIn tOut [tIn] idx seen sel = Inr (Some pth)"
  shows "accepted this pth"
proof -
  from traverse_result[OF assms] obtain mid where
    b: "buildPath this ([tIn] @ mid @ [tOut]) idx = Inr (Some pth)"
    and v: "isValidPath this pth seen sel config"
    and d: "distinct ([tIn] @ mid @ [tOut])"
    by auto
  let ?tp = "[tIn] @ mid @ [tOut]"
  from buildPath_result[OF b] have r: "set pth \<subseteq> segments (graph this)" "pth \<noteq> []"
    "map tokenIn pth = butlast ?tp" "map tokenOut pth = tl ?tp"
    by simp_all
  from r(2,3) have "tokenIn (hd pth) = hd (butlast ?tp)"
    by (cases pth) auto
  then have "tokenIn (hd pth) = tIn" by simp
  with r(4) have "tokenIn (hd pth) # map tokenOut pth = ?tp" by simp
  with d have "distinct (tokenIn (hd pth) # map tokenOut pth)" by simp
  with r(1,2) isValidPath_facts(1)[OF v] show ?thesis
    by (simp add: accepted_def)
qed

lemma findPathsAtIndex_accepted:
  "findPathsAtIndex this config tIn tOut idx st = Inr st' \<Longrightarrow>
   \<forall>p \<in> set (paths st). accepted this p \<Longrightarrow> \<forall>p \<in> set (paths st'). accepted this p"
proof (induction this config tIn tOut idx st rule: findPathsAtIndex.induct)
  case (1 this config tIn tOut idx st)
  let ?t = "traverseGraphAndFindUniquePath this config tIn tIn tOut [tIn] idx
             (seenPoolAddresses st) (selectedPathIds st)"
  show ?case
  proof (cases ?t)
    case (Inl e)
    with "1.prems" show ?thesis by (subst (asm) findPathsAtIndex.simps) simp
  next
    case (Inr r)
    show ?thesis
    proof (cases r)
      case None
      with Inr "1.prems" show ?thesis by (subst (asm) findPathsAtIndex.simps) simp
    next
      case (Some pth)
      let ?st1 = "\<lparr> paths = paths st @ [pth],
              selectedPathIds = selectedPathIds st @ [getIdForPath pth],
              seenPoolAddresses = seenPoolAddresses st @ map poolAddress pth \<rparr>"
      from Some Inr have t: "?t = Inr (Some pth)" by simp
      with "1.prems"(1) have rec: "findPathsAtIndex this config tIn tOut idx ?st1 = Inr st'"
        by (subst (asm) findPathsAtIndex.simps) simp
      from traverse_accepted[OF t] "1.prems"(2) have "\<forall>p \<in> set (paths ?st1). accepted this p"
        by simp
      from "1.IH"[OF Inr Some rec this] show ?thesis .
    qed
  qed
qed

lemma searchAllIndexes_accepted:
  "searchAllIndexes this config tIn tOut idxs st = Inr st' \<Longrightarrow>
   \<forall>p \<in> set (paths st). accepted this p \<Longrightarrow> \<forall>p \<in> set (paths st'). accepted this p"
proof (induction idxs arbitrary: st)
  case Nil
  then show ?case by simp
next
  case (Cons idx idxs)
  then obtain st1 where a: "findPathsAtIndex this config tIn tOut idx st = Inr st1"
    and b: "searchAllIndexes this config tIn tOut idxs st1 = Inr st'"
    by (auto split: sum.splits)
  from Cons.IH[OF b findPathsAtIndex_accepted[OF a Cons.prems(2)]] show ?case .
qed

lemma bestPathsLoop_accepted:
  "bestPathsLoop this config tIn tOut st = Inr st' \<Longrightarrow>
   \<forall>p \<in> set (paths st). accepted this p \<Longrightarrow> \<forall>p \<in> set (paths st'). accepted this p"
proof (induction this config tIn tOut st rule: bestPathsLoop.induct)
  case (1 this config tIn tOut st)
  show ?case
  proof (cases "int (length (paths st)) < approxPathsToReturn config")
    case False
    with "1.prems" show ?thesis by (subst (asm) bestPathsLoop.simps) simp
  next
    case few: True
    show ?thesis
    proof (cases "searchRound this config tIn tOut st")
      case (Inl e)
      with few "1.prems" show ?thesis by (subst (asm) bestPathsLoop.simps) simp
    next
      case (Inr st1)
      then have acc1: "\<forall>p \<in> set (paths st1). accepted this p"
        using searchAllIndexes_accepted "1.prems"(2) unfolding searchRound_def by blast
      show ?thesis
      proof (cases "int (length (paths st1)) < approxPathsToReturn config \<and>
                0 < length (seenPoolAddresses st1)")
        case False
        with few Inr "1.prems"(1) have "st' = st1"
          by (subst (asm) bestPathsLoop.simps) auto
        with acc1 show ?thesis by simp
      next
        case c: True
        show ?thesis
        proof (cases "filterVolatilePools this (seenPoolAddresses st1)")
          case (Inl e)
          with few Inr c "1.prems"(1) show ?thesis
            by (subst (asm) bestPathsLoop.simps) simp
        next
          case vol: (Inr vol)
          let ?st2 = "st1\<lparr> seenPoolAddresses := relaxSeenPools (seenPoolAddresses st1) vol \<rparr>"
          from few Inr c vol "1.prems"(1) have rec: "bestPathsLoop this config tIn tOut ?st2 = Inr st'"
            by (subst (asm) bestPathsLoop.simps) simp
          from acc1 have "\<forall>p \<in> set (paths ?st2). accepted this p" by simp
          from "1.IH"[OF few Inr c vol rec this] show ?thesis .
        qed
      qed
    qed
  qed
qed

lemma toPaths_mem:
  "toPaths this ps = Inr fs \<Longrightarrow> f \<in> set fs \<Longrightarrow> \<exists>pth \<in> set ps. toPath this pth = Inr f"
  by (induction ps arbitrary: fs) (auto split: sum.splits)

lemma segment_fields:
  assumes "wf_PathGraph this" and "s \<in> segments (graph this)"
  shows "address (pair_tokenIn (poolPair s)) = tokenIn s"
    "address (pair_tokenOut (poolPair s)) = tokenOut s"
    "\<exists>p. poolAddressMap this (poolAddress s) = Some p \<and> pool_id p = poolId s"
proof -
  from assms(2) obtain e where e: "e \<in> set (graph this)"
    and s: "s = mk_segment (edge_v e) (edge_w e) (edge_label e)"
    unfolding segments_def by blast
  from assms(1) e have ok: "edge_ok (poolAddressMap this) e"
    unfolding wf_PathGraph_def by blast
  from ok show "address (pair_tokenIn (poolPair s)) = tokenIn s"
    unfolding s edge_ok_def by (simp add: mk_segment_def)
  from ok show "address (pair_tokenOut (poolPair s)) = tokenOut s"
    unfolding s edge_ok_def by (simp add: mk_segment_def)
  from ok obtain p where "poolAddressMap this (poolAddress (edge_label e)) = Some p"
    "pool_id p = poolId (edge_label e)"
    unfolding edge_ok_def by blast
  then show "\<exists>p. poolAddressMap this (poolAddress s) = Some p \<and> pool_id p = poolId s"
    unfolding s by (simp add: mk_segment_def)
qed

lemma distinct_map_Some: "distinct xs \<Longrightarrow> distinct (map Some xs)"
  by (simp add: distinct_map inj_on_def)

lemma toPath_accepted:
  assumes wf: "wf_PathGraph this" and acc: "accepted this pth" and f: "toPath this pth = Inr f"
  shows "distinct (found_tokens f)" "distinct (found_pools f)" "None \<notin> set (found_pools f)"
    "length (found_pools f) + 1 = length (found_tokens f)"
proof -
  from acc have ne: "pth \<noteq> []" and sub: "set pth \<subseteq> segments (graph this)"
    and dp: "distinct (map poolId pth)" and dt: "distinct (tokenIn (hd pth) # map tokenOut pth)"
    by (simp_all add: accepted_def)
  from ne obtain s0 rest where pth: "pth = s0 # rest" by (cases pth) auto
  from f have f': "f = \<lparr> found_tokens = pair_tokenIn (poolPair s0) #
                    map (\<lambda>segment. pair_tokenOut (poolPair segment)) pth,
                found_pools = map (\<lambda>segment. poolAddressMap this (poolAddress segment)) pth \<rparr>"
    unfolding toPath_def pth by simp
  have ft: "found_tokens f = pair_tokenIn (poolPair (hd pth)) #
       map (\<lambda>segment. pair_tokenOut (poolPair segment)) pth"
    by (subst f') (simp add: pth)
  have fp: "found_pools f = map (\<lambda>segment. poolAddressMap this (poolAddress segment)) pth"
    by (subst f') simp
  from ne sub have "hd pth \<in> segments (graph this)" by (cases pth) auto
  from segment_fields(1)[OF wf this] have h: "address (pair_tokenIn (poolPair (hd pth))) = tokenIn (hd pth)" .
  have "map (\<lambda>segment. address (pair_tokenOut (poolPair segment))) pth = map tokenOut pth"
    using sub segment_fields(2)[OF wf] by (intro map_cong) auto
  with h have "map address (found_tokens f) = tokenIn (hd pth) # map tokenOut pth"
    unfolding ft by (simp add: comp_def)
  with dt have "distinct (map address (found_tokens f))" by simp
  then show "distinct (found_tokens f)" by (rule distinct_map[THEN iffD1, THEN conjunct1])
  have ids: "map (\<lambda>segment. map_option pool_id (poolAddressMap this (poolAddress segment))) pth
      = map (\<lambda>segment. Some (poolId segment)) pth"
    using sub segment_fields(3)[OF wf] by (intro map_cong) auto
  have "map (map_option pool_id) (found_pools f) = map Some (map poolId pth)"
    unfolding fp using ids by (simp add: comp_def)
  moreover have "distinct (map Some (map poolId pth))"
    using dp by (rule distinct_map_Some)
  ultimately have "distinct (map (map_option pool_id) (found_pools f))" by simp
  then show "distinct (found_pools f)" by (rule distinct_map[THEN iffD1, THEN conjunct1])
  show "None \<notin> set (found_pools f)"
  proof
    assume "None \<in> set (found_pools f)"
    then obtain s where "s \<in> set pth" "poolAddressMap this (poolAddress s) = None"
      unfolding fp by auto
    with sub segment_fields(3)[OF wf, of s] show False by auto
  qed
  show "length (found_pools f) + 1 = length (found_tokens f)"
    unfolding ft fp by simp
qed

section \<open>The pool pair map\<close>


























section \<open>What buildGraph keeps\<close>



















section \<open>Where an edge comes from, and its rank\<close>






section \<open>The built graph\<close>







section \<open>The search never throws on a built graph\<close>

lemma is_walk_snoc:
  "is_walk g tp \<Longrightarrow> tp \<noteq> [] \<Longrightarrow> \<exists>e \<in> set g. edge_v e = last tp \<and> edge_w e = s \<Longrightarrow>
   is_walk g (tp @ [s])"
  by (induction g tp rule: is_walk.induct) simp_all

lemma set_uniq: "set (uniq seen xs) = set xs - set seen"
  by (induction xs arbitrary: seen) auto

lemma successors_edge:
  "s \<in> set (or_empty (successors g a)) \<Longrightarrow> \<exists>e \<in> set g. edge_v e = a \<and> edge_w e = s"
  by (auto simp: or_empty_def successors_def set_uniq split: if_splits)

lemma hasNode_iff: "hasNode g a \<longleftrightarrow> (\<exists>e \<in> set g. edge_v e = a \<or> edge_w e = a)"
  by (simp add: hasNode_def list_ex_iff)

lemma outEdges_nonempty:
  assumes "e \<in> set g" "edge_v e = a" "edge_w e = b"
  shows "or_empty (outEdges g a b) \<noteq> []"
proof -
  from assms have n: "hasNode g a" unfolding hasNode_iff by blast
  from assms have "filter (\<lambda>e. edge_v e = a \<and> edge_w e = b) g \<noteq> []"
    unfolding filter_empty_conv by blast
  with n show ?thesis unfolding outEdges_def or_empty_def by simp
qed

lemma js_get_fallback:
  "es \<noteq> [] \<Longrightarrow> \<exists>e. (case js_get es i of Some e \<Rightarrow> Some e | None \<Rightarrow> js_get es 0) = Some e"
  by (cases es) (auto simp: js_get_def)

lemma buildPath_loop_total:
  "is_walk g tp \<Longrightarrow> \<exists>r. buildPath_loop g idx tp pth u = Inr r"
proof (induction g idx tp pth u rule: buildPath_loop.induct)
  case (1 g idx a b rest pth isUnique)
  let ?es = "or_empty (outEdges g a b)"
  from "1.prems" obtain e0 where e0: "e0 \<in> set g" "edge_v e0 = a" "edge_w e0 = b"
    and w: "is_walk g (b # rest)" by auto
  from e0 have "?es \<noteq> []" by (rule outEdges_nonempty)
  from js_get_fallback[OF this] obtain e where
    e: "(case js_get ?es idx of Some e \<Rightarrow> Some e | None \<Rightarrow> js_get ?es 0) = Some e" by blast
  from "1.IH"[OF refl e w] e show ?case by (simp add: Let_def)
qed simp_all

lemma buildPath_total: "is_walk (graph this) tp \<Longrightarrow> \<exists>r. buildPath this tp idx = Inr r"
  using buildPath_loop_total[of "graph this" tp idx "[]" False]
  by (auto simp: buildPath_def split: prod.splits)

lemma first_result_total:
  "\<forall>x \<in> set xs. \<exists>r. f x = Inr r \<Longrightarrow> \<exists>r. first_result f xs = Inr r"
  by (induction xs) (auto split: sum.splits option.splits)

lemma traverse_total:
  "is_walk (graph this) tokenPath \<Longrightarrow> tokenPath \<noteq> [] \<Longrightarrow> last tokenPath = tok \<Longrightarrow>
   \<exists>r. traverseGraphAndFindUniquePath this config tok tIn tOut tokenPath idx seen sel = Inr r"
proof (induction this config tok tIn tOut tokenPath idx seen sel
    rule: traverseGraphAndFindUniquePath.induct)
  case (1 this config tok tIn tOut tokenPath idx seen sel)
  let ?succs = "unvisitedSuccessors this tok tokenPath"
  show ?case
  proof (cases "isValidTokenPath this config tokenPath tIn tOut")
    case False
    then show ?thesis by (subst traverseGraphAndFindUniquePath.simps) simp
  next
    case valid: True
    have ext: "is_walk (graph this) (tokenPath @ [s])" if "s \<in> set ?succs" for s
    proof -
      from that have "s \<in> set (or_empty (successors (graph this) tok))"
        by (simp add: unvisitedSuccessors_def)
      from successors_edge[OF this] "1.prems" show ?thesis
        by (intro is_walk_snoc) auto
    qed
    have direct: "\<exists>r. tryDirectPath this config tOut tokenPath idx seen sel ?succs = Inr r"
    proof (cases "tOut \<in> set ?succs")
      case True
      from buildPath_total[OF ext[OF True]] obtain r where
        "buildPath this (tokenPath @ [tOut]) idx = Inr r" by blast
      with True show ?thesis
        by (auto simp: tryDirectPath_def split: option.splits)
    next
      case False
      then show ?thesis by (simp add: tryDirectPath_def)
    qed
    then obtain r where r: "tryDirectPath this config tOut tokenPath idx seen sel ?succs = Inr r"
      by blast
    show ?thesis
    proof (cases r)
      case (Some pth)
      with r valid show ?thesis by (subst traverseGraphAndFindUniquePath.simps) simp
    next
      case None
      have v': "\<not> \<not> isValidTokenPath this config tokenPath tIn tOut" using valid by simp
      have "\<exists>r. traverseGraphAndFindUniquePath this config s tIn tOut (tokenPath @ [s]) idx seen sel = Inr r"
        if s: "s \<in> set (sortedAndFiltered this tOut tokenPath ?succs)" for s
      proof -
        from s have "s \<in> set ?succs" by (simp add: set_sortedAndFiltered)
        from "1.IH"[OF v' r None s ext[OF this]] show ?thesis by simp
      qed
      then have "\<exists>r. first_result (\<lambda>successor. traverseGraphAndFindUniquePath this config successor tIn tOut
                    (tokenPath @ [successor]) idx seen sel)
           (sortedAndFiltered this tOut tokenPath ?succs) = Inr r"
        by (intro first_result_total) blast
      with r None valid show ?thesis by (subst traverseGraphAndFindUniquePath.simps) simp
    qed
  qed
qed

lemma findPathsAtIndex_total:
  "wf_PathGraph this \<Longrightarrow> seen_ok this st \<Longrightarrow>
   \<exists>st'. findPathsAtIndex this config tIn tOut idx st = Inr st' \<and> seen_ok this st'"
proof (induction this config tIn tOut idx st rule: findPathsAtIndex.induct)
  case (1 this config tIn tOut idx st)
  let ?t = "traverseGraphAndFindUniquePath this config tIn tIn tOut [tIn] idx
             (seenPoolAddresses st) (selectedPathIds st)"
  have "\<exists>r. ?t = Inr r" by (rule traverse_total) simp_all
  then obtain r where r: "?t = Inr r" by blast
  show ?case
  proof (cases r)
    case None
    with r "1.prems" show ?thesis by (subst findPathsAtIndex.simps) simp
  next
    case (Some pth)
    let ?st1 = "\<lparr> paths = paths st @ [pth],
              selectedPathIds = selectedPathIds st @ [getIdForPath pth],
              seenPoolAddresses = seenPoolAddresses st @ map poolAddress pth \<rparr>"
    from r Some have t: "?t = Inr (Some pth)" by simp
    from traverse_progress(2)[OF t] segment_fields(3)[OF "1.prems"(1)]
    have "\<forall>s \<in> set pth. \<exists>p. poolAddressMap this (poolAddress s) = Some p" by blast
    with "1.prems"(2) have "seen_ok this ?st1" by (auto simp: seen_ok_def)
    from "1.IH"[OF r Some "1.prems"(1) this] t show ?thesis
      by (subst findPathsAtIndex.simps) simp
  qed
qed

lemma searchAllIndexes_total:
  "wf_PathGraph this \<Longrightarrow> seen_ok this st \<Longrightarrow>
   \<exists>st'. searchAllIndexes this config tIn tOut idxs st = Inr st' \<and> seen_ok this st'"
proof (induction idxs arbitrary: st)
  case Nil
  then show ?case by simp
next
  case (Cons idx idxs)
  from findPathsAtIndex_total[OF Cons.prems] obtain st1 where
    a: "findPathsAtIndex this config tIn tOut idx st = Inr st1" "seen_ok this st1" by blast
  from Cons.IH[OF Cons.prems(1) a(2)] a(1) show ?case by simp
qed

lemma filterVolatilePools_total:
  "\<forall>a \<in> set as. \<exists>p. poolAddressMap this a = Some p \<Longrightarrow>
   \<exists>vol. filterVolatilePools this as = Inr vol \<and> set vol \<subseteq> set as"
  by (induction as) (auto split: option.splits sum.splits)

lemma bestPathsLoop_total:
  "wf_PathGraph this \<Longrightarrow> seen_ok this st \<Longrightarrow> \<exists>st'. bestPathsLoop this config tIn tOut st = Inr st'"
proof (induction this config tIn tOut st rule: bestPathsLoop.induct)
  case (1 this config tIn tOut st)
  show ?case
  proof (cases "int (length (paths st)) < approxPathsToReturn config")
    case False
    then show ?thesis by (subst bestPathsLoop.simps) simp
  next
    case few: True
    from searchAllIndexes_total[OF "1.prems"] obtain st1 where
      round: "searchRound this config tIn tOut st = Inr st1" and ok1: "seen_ok this st1"
      unfolding searchRound_def by blast
    show ?thesis
    proof (cases "int (length (paths st1)) < approxPathsToReturn config \<and>
                0 < length (seenPoolAddresses st1)")
      case False
      with few round show ?thesis by (subst bestPathsLoop.simps) auto
    next
      case c: True
      from ok1 have "\<forall>a \<in> set (seenPoolAddresses st1). \<exists>p. poolAddressMap this a = Some p"
        by (simp add: seen_ok_def)
      from filterVolatilePools_total[OF this] obtain vol where
        vol: "filterVolatilePools this (seenPoolAddresses st1) = Inr vol"
        and sub: "set vol \<subseteq> set (seenPoolAddresses st1)" by blast
      let ?st2 = "st1\<lparr> seenPoolAddresses := relaxSeenPools (seenPoolAddresses st1) vol \<rparr>"
      from ok1 sub have "seen_ok this ?st2"
        by (auto simp: seen_ok_def relaxSeenPools_def)
      from "1.IH"[OF few round c vol "1.prems"(1) this] few round c vol show ?thesis
        by (subst bestPathsLoop.simps) simp
    qed
  qed
qed

lemma toPaths_total:
  "\<forall>p \<in> set ps. p \<noteq> [] \<Longrightarrow> \<exists>fs. toPaths this ps = Inr fs"
proof (induction ps)
  case Nil
  then show ?case by simp
next
  case (Cons p ps)
  then obtain fs where "toPaths this ps = Inr fs" by auto
  moreover from Cons.prems obtain s rest where "p = s # rest" by (cases p) auto
  ultimately show ?case by (simp add: toPath_def)
qed

lemma traverseGraphAndFindBestPaths_total:
  assumes "wf_PathGraph this"
  shows "\<exists>found. traverseGraphAndFindBestPaths this tIn tOut pathConfig = Inr found"
proof (cases "\<not> hasNode (graph this) (address tIn) \<or> \<not> hasNode (graph this) (address tOut)")
  case True
  then show ?thesis by (simp add: traverseGraphAndFindBestPaths_def)
next
  case False
  let ?st0 = "\<lparr> paths = [], selectedPathIds = [], seenPoolAddresses = [] \<rparr>"
  have "seen_ok this ?st0" by (simp add: seen_ok_def)
  from bestPathsLoop_total[OF assms this] obtain st where
    loop: "bestPathsLoop this (applyDefaults pathConfig) (address tIn) (address tOut) ?st0 = Inr st"
    by blast
  from bestPathsLoop_accepted[OF loop] have "\<forall>p \<in> set (paths st). p \<noteq> []"
    by (simp add: accepted_def)
  from toPaths_total[OF this] obtain fs where "toPaths this (paths st) = Inr fs" by blast
  with loop False show ?thesis by (simp add: traverseGraphAndFindBestPaths_def)
qed

section \<open>Pricing a path, and the kind of a priced path\<close>

lemma js_get_drop: "js_get (drop i ts) j = js_get ts (i + j)"
  by (auto simp: js_get_def)

lemma js_read_write_same: "js_read (js_write xs i x) i = Some x"
  by (auto simp: js_read_def js_write_def nth_append)

lemma js_read_write_other:
  "j \<noteq> i \<Longrightarrow> js_read xs j = None \<Longrightarrow> js_read (js_write xs i x) j = None"
  by (auto simp: js_read_def js_write_def nth_append)

lemma length_js_write: "length (js_write xs i x) = max (length xs) (i + 1)"
  by (auto simp: js_write_def)

text \<open>
  The invariant of the loop of \<open>outputAmount()\<close>: entering iteration \<open>i\<close> the slot \<open>i\<close> of
  \<open>amounts\<close> holds the running amount and every later slot is a hole; the loop then does
  what \<open>feed_forward\<close> does on the remaining pools and tokens, and leaves the result in the
  slot \<open>pools.length\<close>.
\<close>

lemma outputAmount_loop_feed:
  assumes "i \<le> length (pools p)"
    and "js_read amounts i = Some a"
    and "length amounts = max n (i + 1)"
    and "\<forall>j > i. js_read amounts j = None"
  shows "case feed_forward (drop i (pools p)) (drop i (tokens p)) a of
           Inl e \<Rightarrow> outputAmount_loop p i amounts = Inl e
         | Inr r \<Rightarrow> (\<exists>am. outputAmount_loop p i amounts = Inr am \<and>
               length am = max n (length (pools p) + 1) \<and>
               js_read am (length (pools p)) = Some r \<and>
               (\<forall>j > length (pools p). js_read am j = None))"
  using assms
proof (induction "length (pools p) - i" arbitrary: i amounts a)
  case 0
  then have "i = length (pools p)" by simp
  with 0 show ?case by simp
next
  case (Suc k)
  then have lt: "i < length (pools p)" by simp
  then have dr: "drop i (pools p) = (pools p ! i) # drop (Suc i) (pools p)"
    by (simp add: Cons_nth_drop_Suc)
  let ?q = "swapGivenIn (pools p ! i) (js_get (tokens p) i) (js_get (tokens p) (i + 1)) (Some a)"
  have ff: "feed_forward (drop i (pools p)) (drop i (tokens p)) a =
      (case ?q of Inl e \<Rightarrow> Inl e
       | Inr out \<Rightarrow> feed_forward (drop (Suc i) (pools p)) (drop (Suc i) (tokens p)) out)"
    unfolding dr by (simp add: js_get_drop drop_Suc tl_drop split: sum.splits)
  show ?case
  proof (cases ?q)
    case (Inl e)
    with lt Suc.prems ff show ?thesis by simp
  next
    case (Inr out)
    let ?am = "js_write amounts (i + 1) out"
    have st: "outputAmount_loop p i amounts = outputAmount_loop p (Suc i) ?am"
      using lt Suc.prems(2) Inr by simp
    have ih: "case feed_forward (drop (Suc i) (pools p)) (drop (Suc i) (tokens p)) out of
           Inl e \<Rightarrow> outputAmount_loop p (Suc i) ?am = Inl e
         | Inr r \<Rightarrow> (\<exists>am. outputAmount_loop p (Suc i) ?am = Inr am \<and>
               length am = max n (length (pools p) + 1) \<and>
               js_read am (length (pools p)) = Some r \<and>
               (\<forall>j > length (pools p). js_read am j = None))"
    proof (rule Suc.hyps(1))
      show "k = length (pools p) - Suc i" using Suc.hyps(2) by simp
      show "Suc i \<le> length (pools p)" using lt by simp
      show "js_read ?am (Suc i) = Some out"
        using js_read_write_same[of amounts "i + 1" out] by simp
      show "length ?am = max n (Suc i + 1)"
        using Suc.prems(3) by (simp add: length_js_write)
      show "\<forall>j > Suc i. js_read ?am j = None"
        using Suc.prems(4) js_read_write_other[of _ "i + 1" amounts out] by simp
    qed
    show ?thesis using ih Inr unfolding ff st by simp
  qed
qed

text \<open>
  Claim C1, as amended. For a GivenIn path, \<open>outputAmount()\<close> feeds the fixed input amount
  through pool 0, then each hop's output into the next pool, in token order (and is
  \<open>undefined\<close> when the path has more than \<open>pools.length + 1\<close> tokens). For a GivenOut path
  it returns the fixed swap amount unchanged: no quoting function of any pool is applied,
  in any order.
\<close>

theorem outputAmount_feeds_forward_or_returns_swapAmount:
  "(swapKind p = GivenIn \<longrightarrow>
      PathWithAmount_outputAmount p =
        (case feed_forward (pools p) (tokens p) (swapAmount p) of
           Inl e \<Rightarrow> Inl e
         | Inr r \<Rightarrow> Inr (if length (tokens p) \<le> length (pools p) + 1 then Some r else None))) \<and>
   (swapKind p = GivenOut \<longrightarrow> PathWithAmount_outputAmount p = Inr (Some (swapAmount p)))"
proof (intro conjI impI)
  assume k: "swapKind p = GivenIn"
  let ?init = "js_write (replicate (length (tokens p)) None) 0 (swapAmount p)"
  have "case feed_forward (drop 0 (pools p)) (drop 0 (tokens p)) (swapAmount p) of
           Inl e \<Rightarrow> outputAmount_loop p 0 ?init = Inl e
         | Inr r \<Rightarrow> (\<exists>am. outputAmount_loop p 0 ?init = Inr am \<and>
               length am = max (length (tokens p)) (length (pools p) + 1) \<and>
               js_read am (length (pools p)) = Some r \<and>
               (\<forall>j > length (pools p). js_read am j = None))"
  proof (rule outputAmount_loop_feed)
    show "js_read ?init 0 = Some (swapAmount p)" by (rule js_read_write_same)
    show "length ?init = max (length (tokens p)) (0 + 1)" by (simp add: length_js_write)
    show "\<forall>j > 0. js_read ?init j = None"
      by (auto simp: js_read_def js_write_def nth_list_update)
  qed simp
  then have loop: "case feed_forward (pools p) (tokens p) (swapAmount p) of
           Inl e \<Rightarrow> outputAmount_loop p 0 ?init = Inl e
         | Inr r \<Rightarrow> (\<exists>am. outputAmount_loop p 0 ?init = Inr am \<and>
               length am = max (length (tokens p)) (length (pools p) + 1) \<and>
               js_read am (length (pools p)) = Some r \<and>
               (\<forall>j > length (pools p). js_read am j = None))"
    by simp
  show "PathWithAmount_outputAmount p =
        (case feed_forward (pools p) (tokens p) (swapAmount p) of
           Inl e \<Rightarrow> Inl e
         | Inr r \<Rightarrow> Inr (if length (tokens p) \<le> length (pools p) + 1 then Some r else None))"
  proof (cases "feed_forward (pools p) (tokens p) (swapAmount p)")
    case (Inl e)
    with loop k show ?thesis by (simp add: PathWithAmount_outputAmount_def)
  next
    case (Inr r)
    with loop obtain am where am: "outputAmount_loop p 0 ?init = Inr am"
      "length am = max (length (tokens p)) (length (pools p) + 1)"
      "js_read am (length (pools p)) = Some r"
      "\<forall>j > length (pools p). js_read am j = None"
      by auto
    have "js_read am (length am - 1) =
        (if length (tokens p) \<le> length (pools p) + 1 then Some r else None)"
    proof (cases "length (tokens p) \<le> length (pools p) + 1")
      case True
      then have "length am - 1 = length (pools p)" using am(2) by simp
      with am(3) True show ?thesis by simp
    next
      case False
      then have "length am - 1 > length (pools p)" using am(2) by simp
      with am(4) False show ?thesis by simp
    qed
    with am(1) Inr k show ?thesis by (simp add: PathWithAmount_outputAmount_def)
  qed
next
  assume "swapKind p = GivenOut"
  then show "PathWithAmount_outputAmount p = Inr (Some (swapAmount p))"
    by (simp add: PathWithAmount_outputAmount_def)
qed

lemma swapKind_pathABC_A: "swapKind (pathABC (fromRawAmount tokA 10)) = GivenIn"
  by (simp add: pathABC_def new_PathWithAmount_def js_get_def fromRawAmount_def)

lemma swapKind_pathABC_C: "swapKind (pathABC (fromRawAmount tokC 37)) = GivenOut"
  by (simp add: pathABC_def new_PathWithAmount_def js_get_def fromRawAmount_def tokA_def tokC_def)

lemma feed_forward_pathABC:
  "feed_forward [poolAB, poolBC] [tokA, tokB, tokC] (fromRawAmount tokA 10) =
     Inr (fromRawAmount tokC 37)"
  by (simp add: poolAB_def poolBC_def ex_pool_def ex_swapGivenIn_def js_get_def
      fromRawAmount_def)

text \<open>
  \<open>10 A\<close> through the two pools: \<open>19 B\<close>, then \<open>37 C\<close>. The same path asked for \<open>37 C\<close> out
  answers \<open>37 C\<close>.
\<close>

theorem outputAmount_feeds_forward_or_returns_swapAmount_witness:
  "swapKind (pathABC (fromRawAmount tokA 10)) = GivenIn \<and>
   PathWithAmount_outputAmount (pathABC (fromRawAmount tokA 10)) =
     Inr (Some (fromRawAmount tokC 37)) \<and>
   swapKind (pathABC (fromRawAmount tokC 37)) = GivenOut \<and>
   PathWithAmount_outputAmount (pathABC (fromRawAmount tokC 37)) =
     Inr (Some (fromRawAmount tokC 37))"
proof -
  have fields: "pools (pathABC a) = [poolAB, poolBC]" "tokens (pathABC a) = [tokA, tokB, tokC]"
    "swapAmount (pathABC a) = a" for a
    by (simp_all add: pathABC_def new_PathWithAmount_def)
  have "PathWithAmount_outputAmount (pathABC (fromRawAmount tokA 10)) =
      (case feed_forward [poolAB, poolBC] [tokA, tokB, tokC] (fromRawAmount tokA 10) of
         Inl e \<Rightarrow> Inl e
       | Inr r \<Rightarrow> Inr (if length [tokA, tokB, tokC] \<le> length [poolAB, poolBC] + 1
                        then Some r else None))"
    using outputAmount_feeds_forward_or_returns_swapAmount[of "pathABC (fromRawAmount tokA 10)"]
    by (simp only: swapKind_pathABC_A fields simp_thms)
  then have given_in: "PathWithAmount_outputAmount (pathABC (fromRawAmount tokA 10)) =
      Inr (Some (fromRawAmount tokC 37))"
    unfolding feed_forward_pathABC by simp
  have given_out: "PathWithAmount_outputAmount (pathABC (fromRawAmount tokC 37)) =
      Inr (Some (fromRawAmount tokC 37))"
    using outputAmount_feeds_forward_or_returns_swapAmount[of "pathABC (fromRawAmount tokC 37)"]
    by (simp only: swapKind_pathABC_C fields simp_thms)
  from given_in given_out swapKind_pathABC_A swapKind_pathABC_C show ?thesis
    by simp
qed

text \<open>
  The claim as stated fails for GivenOut. The path \<open>A -> B\<close> over one pool, asked for \<open>5 B\<close>
  out: going backwards through the pool's \<open>swapGivenOut\<close> asks for \<open>3 A\<close>, whereas
  \<open>outputAmount()\<close> answers \<open>5 B\<close>, the amount it was given.
\<close>

theorem outputAmount_GivenOut_counterexample:
  "swapKind (pathAB (fromRawAmount tokB 5)) = GivenOut \<and>
   PathWithAmount_outputAmount (pathAB (fromRawAmount tokB 5)) = Inr (Some (fromRawAmount tokB 5)) \<and>
   counterpart_GivenOut_spec (pathAB (fromRawAmount tokB 5)) = Inr (fromRawAmount tokA 3)"
  by (simp add: pathAB_def new_PathWithAmount_def js_get_def fromRawAmount_def
      PathWithAmount_outputAmount_def counterpart_GivenOut_spec_def
      poolAB_def ex_pool_def ex_swapGivenOut_def tokA_def tokB_def)

text \<open>
  Claim C10. The constructor infers the kind from token identity alone: GivenIn exactly
  when the swap amount's token is the first token of the path, GivenOut in every other
  case, also when that token is a later token of the path or no token of the path at
  all; the constructor rejects nothing.
\<close>

theorem swapKind_from_first_token:
  "(swapKind (new_PathWithAmount ts ps a) = GivenIn \<longleftrightarrow> (ts \<noteq> [] \<and> hd ts = token a)) \<and>
   (swapKind (new_PathWithAmount ts ps a) = GivenOut \<longleftrightarrow> \<not> (ts \<noteq> [] \<and> hd ts = token a)) \<and>
   (token a \<notin> set ts \<longrightarrow> swapKind (new_PathWithAmount ts ps a) = GivenOut) \<and>
   (ts \<noteq> [] \<and> hd ts \<noteq> token a \<and> token a \<in> set (tl ts) \<longrightarrow>
      swapKind (new_PathWithAmount ts ps a) = GivenOut)"
  by (cases ts) (auto simp: new_PathWithAmount_def js_get_def)

theorem swapKind_from_first_token_witness:
  "swapKind (new_PathWithAmount [tokA, tokB, tokC] [poolAB, poolBC] (fromRawAmount tokA 5)) = GivenIn \<and>
   swapKind (new_PathWithAmount [tokA, tokB, tokC] [poolAB, poolBC] (fromRawAmount tokB 5)) = GivenOut \<and>
   swapKind (new_PathWithAmount [tokA, tokB] [poolAB] (fromRawAmount tokC 5)) = GivenOut"
  using swapKind_from_first_token[of "[tokA, tokB, tokC]" "[poolAB, poolBC]" "fromRawAmount tokA 5"]
    swapKind_from_first_token[of "[tokA, tokB, tokC]" "[poolAB, poolBC]" "fromRawAmount tokB 5"]
    swapKind_from_first_token[of "[tokA, tokB]" "[poolAB]" "fromRawAmount tokC 5"]
  by (simp add: tokA_def tokB_def tokC_def fromRawAmount_def)

section \<open>Routes: the batch flag and the aggregate amounts\<close>


lemma fields_pathABC:
  "pools (pathABC a) = [poolAB, poolBC]" "tokens (pathABC a) = [tokA, tokB, tokC]"
  by (simp_all add: pathABC_def new_PathWithAmount_def)

lemma steps_of_pathABC:
  "steps_of_path [''0xA'', ''0xB'', ''0xC''] GivenIn [tokA, tokB, tokC] n 0 [poolAB, poolBC] =
     Inr [ex_step ''id1'' 0 1 n, ex_step ''id3'' 1 2 0]"
  by (simp add: js_get_def ex_step_def poolAB_def poolBC_def ex_pool_def
      tokA_def tokB_def tokC_def)

lemma new_Swap_ex1: "new_Swap [swapPathABC] GivenIn (fromRawAmount tokA 10) = Inr ex_Swap1"
proof -
  have as: "uniq [] (map address (concat (map (\<lambda>p. tokens (path p)) [swapPathABC]))) =
      [''0xA'', ''0xB'', ''0xC'']"
    by (simp add: swapPathABC_def fields_pathABC tokA_def tokB_def tokC_def)
  have flds: "tokens (path swapPathABC) = [tokA, tokB, tokC]"
    "pools (path swapPathABC) = [poolAB, poolBC]" "amount (inputAmount swapPathABC) = 10"
    by (simp_all add: swapPathABC_def fields_pathABC fromRawAmount_def)
  have "steps_of_path [''0xA'', ''0xB'', ''0xC''] GivenIn (tokens (path swapPathABC))
      (amount (inputAmount swapPathABC)) 0 (pools (path swapPathABC)) =
      Inr [ex_step ''id1'' 0 1 10, ex_step ''id3'' 1 2 0]"
    unfolding flds by (rule steps_of_pathABC)
  then have st: "steps_of_paths [''0xA'', ''0xB'', ''0xC''] GivenIn [swapPathABC] =
      Inr [ex_step ''id1'' 0 1 10, ex_step ''id3'' 1 2 0]"
    by simp
  have nat: "isNative (token (fromRawAmount tokA 10)) = False"
    by (simp add: fromRawAmount_def tokA_def)
  have len: "length (pools (path swapPathABC)) = 2"
    by (simp add: swapPathABC_def fields_pathABC)
  show ?thesis
    unfolding new_Swap_def as st nat Let_def ex_Swap1_def using len by simp
qed






section \<open>The orchestrator\<close>

lemma getSwaps_Inr_iff:
  "getSwaps sor tIn tOut k a = Inr info \<longleftrightarrow>
     (\<exists>ps cands best. getPools sor = Inr ps \<and>
        getCandidatePaths sor tIn tOut k ps = Inr cands \<and>
        getBestPaths sor cands k a = Inr best \<and>
        info = \<lparr> quote = a, swap = best, info_paths = swap_paths best \<rparr>)"
  by (auto simp: getSwaps_def split: sum.splits)

lemma getSwaps_Inl_iff:
  "getSwaps sor tIn tOut k a = Inl e \<longleftrightarrow>
     (getPools sor = Inl e \<or>
      (\<exists>ps. getPools sor = Inr ps \<and>
         (getCandidatePaths sor tIn tOut k ps = Inl e \<or>
          (\<exists>cands. getCandidatePaths sor tIn tOut k ps = Inr cands \<and>
             getBestPaths sor cands k a = Inl e))))"
  by (auto simp: getSwaps_def split: sum.splits)

lemma ex_sor_best:
  "getBestPaths (ex_sor ps)
     [\<lparr> pools = [poolAB, poolBC], tokens = [tokA, tokB, tokC] \<rparr>] GivenIn (fromRawAmount tokA 10) =
   Inr ex_Swap1"
proof -
  have "new_PathWithAmount [tokA, tokB, tokC] [poolAB, poolBC] (fromRawAmount tokA 10) =
      pathABC (fromRawAmount tokA 10)"
    by (simp add: pathABC_def)
  then have "map (\<lambda>p. \<lparr> path = p, inputAmount = swapAmount p,
                          outputAmount = fromRawAmount tokC 37 \<rparr>)
      (map (\<lambda>c. new_PathWithAmount (tokens c) (pools c) (fromRawAmount tokA 10))
         [\<lparr> pools = [poolAB, poolBC], tokens = [tokA, tokB, tokC] \<rparr>]) = [swapPathABC]"
    by (simp add: swapPathABC_def pathABC_def new_PathWithAmount_def)
  then show ?thesis
    by (simp add: ex_sor_def fromPaths_def new_Swap_ex1)
qed

lemma getSwaps_ex:
  "getSwaps (ex_sor ps) tIn tOut GivenIn (fromRawAmount tokA 10) =
     Inr \<lparr> quote = fromRawAmount tokA 10, swap = ex_Swap1, info_paths = [swapPathABC] \<rparr>"
proof -
  have "getPools (ex_sor ps) = Inr ps"
    "getCandidatePaths (ex_sor ps) tIn tOut GivenIn ps =
       Inr [\<lparr> pools = [poolAB, poolBC], tokens = [tokA, tokB, tokC] \<rparr>]"
    by (simp_all add: ex_sor_def)
  then show ?thesis
    unfolding getSwaps_def by (simp add: ex_sor_best ex_Swap1_def)
qed

text \<open>
  Claim C2, as amended. Whenever \<open>getSwaps\<close> returns, its \<open>quote\<close> is the caller's
  requested swap amount, unchanged; \<open>swap\<close> is the route that \<open>getBestPaths\<close> returned and
  \<open>paths\<close> are that route's paths. No aggregate of priced amounts is computed.
\<close>

theorem getSwaps_quote_is_swapAmount:
  assumes "getSwaps sor tIn tOut k a = Inr info"
  shows "quote info = a \<and> info_paths info = swap_paths (swap info) \<and>
     (\<exists>ps cands. getPools sor = Inr ps \<and>
        getCandidatePaths sor tIn tOut k ps = Inr cands \<and>
        getBestPaths sor cands k a = Inr (swap info))"
  using assms unfolding getSwaps_Inr_iff by auto

theorem getSwaps_quote_is_swapAmount_witness:
  "getSwaps (ex_sor [poolAB, poolBC]) tokA tokC GivenIn (fromRawAmount tokA 10) =
     Inr \<lparr> quote = fromRawAmount tokA 10, swap = ex_Swap1, info_paths = [swapPathABC] \<rparr> \<and>
   quote \<lparr> quote = fromRawAmount tokA 10, swap = ex_Swap1, info_paths = [swapPathABC] \<rparr> =
     fromRawAmount tokA 10"
  using getSwaps_quote_is_swapAmount[OF getSwaps_ex[of "[poolAB, poolBC]" tokA tokC]]
    getSwaps_ex[of "[poolAB, poolBC]" tokA tokC]
  by simp

text \<open>
  The claim as stated fails: asked to sell \<open>10 A\<close> for \<open>C\<close>, the router selects a route
  whose priced (output) amount is \<open>37 C\<close>, and answers the quote \<open>10 A\<close>.
\<close>

theorem getSwaps_quote_counterexample:
  "getSwaps (ex_sor [poolAB, poolBC]) tokA tokC GivenIn (fromRawAmount tokA 10) =
     Inr \<lparr> quote = fromRawAmount tokA 10, swap = ex_Swap1, info_paths = [swapPathABC] \<rparr> \<and>
   Swap_outputAmount ex_Swap1 = Inr (fromRawAmount tokC 37) \<and>
   fromRawAmount tokA 10 \<noteq> fromRawAmount tokC 37"
proof -
  have "Swap_outputAmount ex_Swap1 = Inr (fromRawAmount tokC 37)"
    by (simp add: Swap_outputAmount_def ex_Swap1_def reduce_add_def swapPathABC_def)
  moreover have "fromRawAmount tokA 10 \<noteq> fromRawAmount tokC 37"
    by (simp add: fromRawAmount_def)
  ultimately show ?thesis using getSwaps_ex[of "[poolAB, poolBC]" tokA tokC] by simp
qed

text \<open>
  Claim C7, as amended. \<open>getSwaps\<close> validates nothing itself. Whatever the tokens and the
  pool snapshot, it fetches the pools, asks for the candidate paths and then for the best
  paths; it fails exactly when one of these three fails, with that failure, and
  otherwise returns.
\<close>

theorem getSwaps_fails_only_with_its_collaborators:
  "(getSwaps sor tIn tOut k a = Inl e \<longleftrightarrow>
     (getPools sor = Inl e \<or>
      (\<exists>ps. getPools sor = Inr ps \<and>
         (getCandidatePaths sor tIn tOut k ps = Inl e \<or>
          (\<exists>cands. getCandidatePaths sor tIn tOut k ps = Inr cands \<and>
             getBestPaths sor cands k a = Inl e))))) \<and>
   (getPools sor = Inr ps \<and> getCandidatePaths sor tIn tOut k ps = Inr cands \<and>
      getBestPaths sor cands k a = Inr best \<longrightarrow>
    getSwaps sor tIn tOut k a =
      Inr \<lparr> quote = a, swap = best, info_paths = swap_paths best \<rparr>)"
  using getSwaps_Inl_iff[of sor tIn tOut k a e]
    getSwaps_Inr_iff[of sor tIn tOut k a "\<lparr> quote = a, swap = best, info_paths = swap_paths best \<rparr>"]
  by blast

theorem getSwaps_fails_only_with_its_collaborators_witness:
  "getPools (ex_sor []) = Inr [] \<and>
   getCandidatePaths (ex_sor []) tokA tokA GivenIn [] =
     Inr [\<lparr> pools = [poolAB, poolBC], tokens = [tokA, tokB, tokC] \<rparr>] \<and>
   getBestPaths (ex_sor [])
     [\<lparr> pools = [poolAB, poolBC], tokens = [tokA, tokB, tokC] \<rparr>] GivenIn (fromRawAmount tokA 10) =
     Inr ex_Swap1 \<and>
   getSwaps (ex_sor []) tokA tokA GivenIn (fromRawAmount tokA 10) =
     Inr \<lparr> quote = fromRawAmount tokA 10, swap = ex_Swap1, info_paths = swap_paths ex_Swap1 \<rparr>"
proof -
  have a: "getPools (ex_sor []) = Inr []"
    and b: "getCandidatePaths (ex_sor []) tokA tokA GivenIn [] =
     Inr [\<lparr> pools = [poolAB, poolBC], tokens = [tokA, tokB, tokC] \<rparr>]"
    by (simp_all add: ex_sor_def)
  note c = ex_sor_best[of "[]"]
  from getSwaps_fails_only_with_its_collaborators[of "ex_sor []" tokA tokA GivenIn
      "fromRawAmount tokA 10" TypeError "[]"
      "[\<lparr> pools = [poolAB, poolBC], tokens = [tokA, tokB, tokC] \<rparr>]" ex_Swap1] a b c
  show ?thesis by blast
qed

text \<open>
  The claim as stated fails: with identical input and output tokens, and with an empty
  pool snapshot, a router whose collaborators succeed returns a route; no error is
  raised before the candidate search and the path selection have run.
\<close>

theorem getSwaps_no_validation_counterexample:
  "getPools (ex_sor []) = Inr [] \<and>
   getSwaps (ex_sor []) tokA tokA GivenIn (fromRawAmount tokA 10) =
     Inr \<lparr> quote = fromRawAmount tokA 10, swap = ex_Swap1, info_paths = [swapPathABC] \<rparr>"
  using getSwaps_ex[of "[]" tokA tokA] by (simp add: ex_sor_def)

section \<open>The search: relaxation and the hop budget\<close>

lemma ex_pg_built: "buildGraph new_PathGraph ex_pools None = Inr ex_pg"
proof -
  have "\<not> isl (buildGraph new_PathGraph ex_pools None)"
    by code_simp
  then show ?thesis
    unfolding ex_pg_def by simp
qed

lemma ex_round1: "searchRound ex_pg (applyDefaults None) ''0xA'' ''0xP4'' ex_state0 =
    Inr (projr (searchRound ex_pg (applyDefaults None) ''0xA'' ''0xP4'' ex_state0))"
proof -
  have "\<not> isl (searchRound ex_pg (applyDefaults None) ''0xA'' ''0xP4'' ex_state0)"
    by code_simp
  then show ?thesis by simp
qed

text \<open>
  Claim C3, as amended. After a round that leaves fewer than \<open>approxPathsToReturn\<close> paths
  and a non-empty \<open>seenPoolAddresses\<close>, the relaxation keeps in \<open>seenPoolAddresses\<close>
  exactly the addresses of its Weighted (volatile) pools, in order, and removes all
  others, when there is at least one of each kind; otherwise it empties the list. In both
  cases the loop goes on with another round, and does so again whenever the condition
  holds again. The search stops after a round that ends with \<open>approxPathsToReturn\<close>
  paths or more, or with an empty \<open>seenPoolAddresses\<close>.
\<close>

theorem relaxation_keeps_the_volatile_pools:
  assumes "int (length (paths st)) < approxPathsToReturn config"
    and "searchRound this config tIn tOut st = Inr st'"
  shows
   "(int (length (paths st')) < approxPathsToReturn config \<and> seenPoolAddresses st' \<noteq> [] \<longrightarrow>
      (\<forall>vol. filterVolatilePools this (seenPoolAddresses st') = Inr vol \<longrightarrow>
         vol = filter (\<lambda>a. \<exists>p. poolAddressMap this a = Some p \<and> poolType p = Weighted)
                 (seenPoolAddresses st') \<and>
         bestPathsLoop this config tIn tOut st =
           bestPathsLoop this config tIn tOut
             (st'\<lparr> seenPoolAddresses :=
                      (if vol \<noteq> [] \<and> length vol < length (seenPoolAddresses st') then vol
                       else []) \<rparr>))) \<and>
    (\<not> (int (length (paths st')) < approxPathsToReturn config \<and> seenPoolAddresses st' \<noteq> []) \<longrightarrow>
      bestPathsLoop this config tIn tOut st = Inr st')"
proof (intro conjI impI allI)
  fix vol
  assume c: "int (length (paths st')) < approxPathsToReturn config \<and> seenPoolAddresses st' \<noteq> []"
    and f: "filterVolatilePools this (seenPoolAddresses st') = Inr vol"
  from filterVolatilePools_Inr[OF f]
  show "vol = filter (\<lambda>a. \<exists>p. poolAddressMap this a = Some p \<and> poolType p = Weighted)
                 (seenPoolAddresses st')"
    by simp
  show "bestPathsLoop this config tIn tOut st =
           bestPathsLoop this config tIn tOut
             (st'\<lparr> seenPoolAddresses :=
                      (if vol \<noteq> [] \<and> length vol < length (seenPoolAddresses st') then vol
                       else []) \<rparr>)"
    using assms c f
    by (subst bestPathsLoop.simps) (simp add: relaxSeenPools_def)
next
  assume "\<not> (int (length (paths st')) < approxPathsToReturn config \<and> seenPoolAddresses st' \<noteq> [])"
  then show "bestPathsLoop this config tIn tOut st = Inr st'"
    using assms by (subst bestPathsLoop.simps) auto
qed

text \<open>
  The first round of the search from \<open>A\<close> to the pool token \<open>0xP4\<close> over the three pools
  selects one path and has seen all three pools. The relaxation keeps the two weighted
  pools in the list and releases the stable pool.
\<close>

theorem relaxation_keeps_the_volatile_pools_witness:
  "int (length (paths ex_state0)) < approxPathsToReturn (applyDefaults None) \<and>
   seenPoolAddresses (projr (searchRound ex_pg (applyDefaults None) ''0xA'' ''0xP4'' ex_state0)) =
     [''0xP1'', ''0xP3'', ''0xP4''] \<and>
   filterVolatilePools ex_pg [''0xP1'', ''0xP3'', ''0xP4''] = Inr [''0xP1'', ''0xP3''] \<and>
   bestPathsLoop ex_pg (applyDefaults None) ''0xA'' ''0xP4'' ex_state0 =
     bestPathsLoop ex_pg (applyDefaults None) ''0xA'' ''0xP4''
       ((projr (searchRound ex_pg (applyDefaults None) ''0xA'' ''0xP4'' ex_state0))
          \<lparr> seenPoolAddresses := [''0xP1'', ''0xP3''] \<rparr>)"
proof -
  let ?st' = "projr (searchRound ex_pg (applyDefaults None) ''0xA'' ''0xP4'' ex_state0)"
  have few: "int (length (paths ex_state0)) < approxPathsToReturn (applyDefaults None)"
    by (simp add: ex_state0_def applyDefaults_def)
  have seen: "seenPoolAddresses ?st' = [''0xP1'', ''0xP3'', ''0xP4'']"
    by code_simp
  have len: "int (length (paths ?st')) < approxPathsToReturn (applyDefaults None)"
    by code_simp
  have vol: "filterVolatilePools ex_pg [''0xP1'', ''0xP3'', ''0xP4''] = Inr [''0xP1'', ''0xP3'']"
    by code_simp
  from relaxation_keeps_the_volatile_pools[OF few ex_round1] len seen vol
  have "bestPathsLoop ex_pg (applyDefaults None) ''0xA'' ''0xP4'' ex_state0 =
     bestPathsLoop ex_pg (applyDefaults None) ''0xA'' ''0xP4''
       (?st'\<lparr> seenPoolAddresses := [''0xP1'', ''0xP3''] \<rparr>)"
    by simp
  with few seen vol show ?thesis by simp
qed

text \<open>
  The claim as stated fails: of the seen pools \<open>0xP1\<close>, \<open>0xP3\<close> (Weighted) and \<open>0xP4\<close>
  (ComposableStable), the relaxation removes the stable one and keeps the weighted ones.
\<close>

theorem relaxation_counterexample:
  "map_option poolType (poolAddressMap ex_pg ''0xP1'') = Some Weighted \<and>
   map_option poolType (poolAddressMap ex_pg ''0xP3'') = Some Weighted \<and>
   map_option poolType (poolAddressMap ex_pg ''0xP4'') = Some ComposableStable \<and>
   filterVolatilePools ex_pg [''0xP1'', ''0xP3'', ''0xP4''] = Inr [''0xP1'', ''0xP3''] \<and>
   relaxSeenPools [''0xP1'', ''0xP3'', ''0xP4''] [''0xP1'', ''0xP3''] = [''0xP1'', ''0xP3'']"
  by code_simp

text \<open>
  Claim C5 does not hold of the search. \<open>isValidTokenPath\<close> is applied to the token path
  before \<open>tokenOut\<close> is appended, and \<open>isValidPath\<close> checks no hop budget: when the only
  pool address of a path is its output token, the path is boosted and its hop tokens were
  never counted against \<open>maxNonBoostedHopTokensInBoostedPath\<close>. From \<open>A\<close> to the pool token
  of the pool at \<open>0xP4\<close>, with the default options (a budget of 1), the search returns the
  path \<open>A, B, C, 0xP4\<close>, whose two hop tokens \<open>B\<close> and \<open>C\<close> are no pool addresses.
\<close>

theorem boosted_path_exceeds_hop_budget:
  "map_sum id (map path_summary) (traverseGraphAndFindBestPaths ex_pg tokA tokP4 None) =
     Inr [([''0xA'', ''0xB'', ''0xC'', ''0xP4''], [Some ''id1'', Some ''id3'', Some ''id4''])] \<and>
   truthy (poolAddressMap ex_pg ''0xP4'') \<and>
   \<not> truthy (poolAddressMap ex_pg ''0xB'') \<and> \<not> truthy (poolAddressMap ex_pg ''0xC'') \<and>
   maxNonBoostedHopTokensInBoostedPath (applyDefaults None) = 1"
  by code_simp

theorem boosted_path_exceeds_hop_budget_witness:
  "\<not> isl (traverseGraphAndFindBestPaths ex_pg tokA tokP4 None) \<and>
   map path_summary (projr (traverseGraphAndFindBestPaths ex_pg tokA tokP4 None)) =
     [([''0xA'', ''0xB'', ''0xC'', ''0xP4''], [Some ''id1'', Some ''id3'', Some ''id4''])]"
  using boosted_path_exceeds_hop_budget
  by (cases "traverseGraphAndFindBestPaths ex_pg tokA tokP4 None") simp_all

section \<open>The built graph and the paths found\<close>






lemma toPath_accepted_strong:
  assumes wf: "wf_PathGraph this" and acc: "accepted this pth" and f: "toPath this pth = Inr f"
  shows "distinct (map address (found_tokens f))"
    "distinct (map (map_option pool_id) (found_pools f))"
    "2 \<le> length (found_tokens f)"
proof -
  from acc have ne: "pth \<noteq> []" and sub: "set pth \<subseteq> segments (graph this)"
    and dp: "distinct (map poolId pth)" and dt: "distinct (tokenIn (hd pth) # map tokenOut pth)"
    by (simp_all add: accepted_def)
  from ne obtain s0 rest where pth: "pth = s0 # rest" by (cases pth) auto
  from f have f': "f = \<lparr> found_tokens = pair_tokenIn (poolPair s0) #
                    map (\<lambda>segment. pair_tokenOut (poolPair segment)) pth,
                found_pools = map (\<lambda>segment. poolAddressMap this (poolAddress segment)) pth \<rparr>"
    unfolding toPath_def pth by simp
  have ft: "found_tokens f = pair_tokenIn (poolPair (hd pth)) #
       map (\<lambda>segment. pair_tokenOut (poolPair segment)) pth"
    by (subst f') (simp add: pth)
  have fp: "found_pools f = map (\<lambda>segment. poolAddressMap this (poolAddress segment)) pth"
    by (subst f') simp
  from ne sub have "hd pth \<in> segments (graph this)" by (cases pth) auto
  from segment_fields(1)[OF wf this] have h: "address (pair_tokenIn (poolPair (hd pth))) = tokenIn (hd pth)" .
  have "map (\<lambda>segment. address (pair_tokenOut (poolPair segment))) pth = map tokenOut pth"
    using sub segment_fields(2)[OF wf] by (intro map_cong) auto
  with h have "map address (found_tokens f) = tokenIn (hd pth) # map tokenOut pth"
    unfolding ft by (simp add: comp_def)
  with dt show "distinct (map address (found_tokens f))" by simp
  have ids: "map (\<lambda>segment. map_option pool_id (poolAddressMap this (poolAddress segment))) pth
      = map (\<lambda>segment. Some (poolId segment)) pth"
    using sub segment_fields(3)[OF wf] by (intro map_cong) auto
  have "map (map_option pool_id) (found_pools f) = map Some (map poolId pth)"
    unfolding fp using ids by (simp add: comp_def)
  moreover have "distinct (map Some (map poolId pth))"
    using dp by (rule distinct_map_Some)
  ultimately show "distinct (map (map_option pool_id) (found_pools f))" by simp
  show "2 \<le> length (found_tokens f)"
    unfolding ft using ne by (cases pth) simp_all
qed

text \<open>
  Claim C6. On a graph that \<open>buildGraph\<close> built (or on a fresh PathGraph) the search
  returns, and every path it returns is well formed: no token twice in its token
  sequence (no token address, even), no pool twice in its pool sequence (no pool id,
  even, and no \<open>undefined\<close> pool), and one pool fewer than tokens.
\<close>

theorem found_paths_are_well_formed:
  assumes "this = new_PathGraph \<or> buildGraph this0 ps n = Inr this"
  shows "\<exists>found. traverseGraphAndFindBestPaths this tIn tOut pathConfig = Inr found \<and>
     (\<forall>f \<in> set found.
        distinct (found_tokens f) \<and> distinct (map address (found_tokens f)) \<and>
        distinct (found_pools f) \<and> None \<notin> set (found_pools f) \<and>
        distinct (map (map_option pool_id) (found_pools f)) \<and>
        length (found_pools f) = length (found_tokens f) - 1 \<and>
        2 \<le> length (found_tokens f))"
proof -
  from assms have wf: "wf_PathGraph this"
    using new_PathGraph_wf buildGraph_wf by blast
  from traverseGraphAndFindBestPaths_total[OF wf] obtain found where
    found: "traverseGraphAndFindBestPaths this tIn tOut pathConfig = Inr found" by blast
  have "distinct (found_tokens f) \<and> distinct (map address (found_tokens f)) \<and>
        distinct (found_pools f) \<and> None \<notin> set (found_pools f) \<and>
        distinct (map (map_option pool_id) (found_pools f)) \<and>
        length (found_pools f) = length (found_tokens f) - 1 \<and>
        2 \<le> length (found_tokens f)" if f: "f \<in> set found" for f
  proof -
    from found f obtain st where
      loop: "bestPathsLoop this (applyDefaults pathConfig) (address tIn) (address tOut)
               \<lparr> paths = [], selectedPathIds = [], seenPoolAddresses = [] \<rparr> = Inr st"
      and tp: "toPaths this (paths st) = Inr found"
      by (auto simp: traverseGraphAndFindBestPaths_def split: if_splits sum.splits)
    from bestPathsLoop_accepted[OF loop] have acc: "\<forall>p \<in> set (paths st). accepted this p" by simp
    from toPaths_mem[OF tp f] obtain pth where
      pth: "pth \<in> set (paths st)" "toPath this pth = Inr f" by blast
    with acc have a: "accepted this pth" by blast
    from toPath_accepted[OF wf a pth(2)] toPath_accepted_strong[OF wf a pth(2)]
    show ?thesis by simp
  qed
  with found show ?thesis by blast
qed

text \<open>The search from \<open>A\<close> to \<open>0xP4\<close> over the three pools returns one path.\<close>

lemma ex_found:
  "map path_summary (projr (traverseGraphAndFindBestPaths ex_pg tokA tokP4 None)) =
     [([''0xA'', ''0xB'', ''0xC'', ''0xP4''], [Some ''id1'', Some ''id3'', Some ''id4''])]"
  by code_simp

theorem found_paths_are_well_formed_witness:
  "buildGraph new_PathGraph ex_pools None = Inr ex_pg \<and>
   traverseGraphAndFindBestPaths ex_pg tokA tokP4 None =
     Inr (projr (traverseGraphAndFindBestPaths ex_pg tokA tokP4 None)) \<and>
   map path_summary (projr (traverseGraphAndFindBestPaths ex_pg tokA tokP4 None)) =
     [([''0xA'', ''0xB'', ''0xC'', ''0xP4''], [Some ''id1'', Some ''id3'', Some ''id4''])] \<and>
   list_all (\<lambda>f. distinct (found_tokens f) \<and> distinct (found_pools f) \<and>
                 length (found_pools f) = length (found_tokens f) - 1)
     (projr (traverseGraphAndFindBestPaths ex_pg tokA tokP4 None))"
proof -
  from found_paths_are_well_formed[OF disjI2[OF ex_pg_built], of tokA tokP4 None]
  obtain found where found: "traverseGraphAndFindBestPaths ex_pg tokA tokP4 None = Inr found"
    and wf: "\<forall>f \<in> set found. distinct (found_tokens f) \<and> distinct (found_pools f) \<and>
                 length (found_pools f) = length (found_tokens f) - 1"
    by blast
  from found have p: "projr (traverseGraphAndFindBestPaths ex_pg tokA tokP4 None) = found" by simp
  from wf have "list_all (\<lambda>f. distinct (found_tokens f) \<and> distinct (found_pools f) \<and>
                 length (found_pools f) = length (found_tokens f) - 1) found"
    by (simp add: list_all_iff)
  with found p ex_found ex_pg_built show ?thesis by simp
qed

end
